theory Spec2Isabelle
  imports Complex_Main "HOL-Library.AList" "HOL-Library.Char_ord" "HOL-Library.List_Lexorder"
    "HOL-Library.Multiset" "HOL-Library.Monad_Syntax"
begin

section \<open>Fabric telemetry: simulator, publish cache, poller, store and rolling statistics\<close>

text \<open>
  The development embeds the Python sources of the two services. Python integers are
  \<open>int\<close>, strings are \<open>string\<close>, floats are idealised as \<open>real\<close> (IEEE rounding, NaN and
  infinities are outside the model), dictionaries are association lists in insertion order
  (\<open>AList.update\<close> keeps the position of a key that is already present, as Python does), and
  every exception is a value of a sum or option type.
\<close>

subsection \<open>Python built-ins used by the sources\<close>

text \<open>
  \<open>str_int\<close> is \<open>str\<close> on an integer, \<open>fmt_03d\<close> the format specification \<open>03d\<close> on a
  non-negative integer, \<open>int_of_str\<close> is \<open>int\<close> on a string (surrounding whitespace, an optional
  sign, decimal digits with single underscores between digits; \<open>None\<close> stands for
  \<open>ValueError\<close>), and \<open>py_round2\<close> is \<open>round(x, 2)\<close>, rounding half to even. The
  interpreter's optional limit on the number of digits of a conversion is not modelled.
  \<open>float\<close> on a string and \<open>str\<close> on a float depend on the binary representation and are
  parameters (\<open>pfloat\<close>, with \<open>None\<close> for \<open>ValueError\<close>, and \<open>fstr\<close>) of the functions that
  call them.
\<close>

datatype py_error = KeyError | ValueError | IndexError | StopIteration | HTTPError

definition digit_char :: "nat \<Rightarrow> char" where
  "digit_char d = ''0123456789'' ! d"

fun str_nat :: "nat \<Rightarrow> string" where
  "str_nat n = (if n < 10 then [digit_char n] else str_nat (n div 10) @ [digit_char (n mod 10)])"

declare str_nat.simps [simp del]

definition str_int :: "int \<Rightarrow> string" where
  "str_int i = (if i < 0 then CHR ''-'' # str_nat (nat (- i)) else str_nat (nat i))"

definition fmt_03d :: "nat \<Rightarrow> string" where
  "fmt_03d i = (let s = str_nat i in replicate (3 - length s) CHR ''0'' @ s)"

definition is_digit :: "char \<Rightarrow> bool" where
  "is_digit c = (c \<in> set ''0123456789'')"

definition digit_val :: "char \<Rightarrow> nat" where
  "digit_val c = of_char c - 48"

definition is_space :: "char \<Rightarrow> bool" where
  "is_space c = (of_char c \<in> {9, 10, 11, 12, 13, 28, 29, 30, 31, 32, 133, 160 :: nat})"

definition strip :: "string \<Rightarrow> string" where
  "strip s = rev (dropWhile is_space (rev (dropWhile is_space s)))"

fun digits_value :: "nat \<Rightarrow> string \<Rightarrow> nat option" where
  "digits_value acc [] = Some acc"
| "digits_value acc (c # cs) =
     (if is_digit c then digits_value (acc * 10 + digit_val c) cs
      else if c = CHR ''_'' then
        (case cs of [] \<Rightarrow> None
         | d # _ \<Rightarrow> if is_digit d then digits_value acc cs else None)
      else None)"

definition nat_of_str :: "string \<Rightarrow> nat option" where
  "nat_of_str s = (case s of [] \<Rightarrow> None
     | c # _ \<Rightarrow> if is_digit c then digits_value 0 s else None)"

definition int_of_str :: "string \<Rightarrow> int option" where
  "int_of_str s =
     (case strip s of [] \<Rightarrow> None
      | c # cs \<Rightarrow>
          if c = CHR ''-'' then map_option (\<lambda>n. - int n) (nat_of_str cs)
          else if c = CHR ''+'' then map_option int (nat_of_str cs)
          else map_option int (nat_of_str (c # cs)))"

definition py_round2 :: "real \<Rightarrow> real" where
  "py_round2 x =
     (let y = x * 100; f = \<lfloor>y\<rfloor>; d = y - of_int f in
      of_int (if d < 1 / 2 then f else if 1 / 2 < d then f + 1
              else if even f then f else f + 1) / 100)"

subsection \<open>The random module\<close>

text \<open>
  A random outcome is the sequence of values that the calls into \<open>random\<close> return, in call
  order. Each function takes the next value and checks the library's contract on it:
  \<open>random()\<close> lies in \<open>[0, 1)\<close>, \<open>uniform(a, b)\<close> and \<open>randint(a, b)\<close> lie in \<open>[a, b]\<close>,
  \<open>gauss\<close> is any float. A sequence that is too short, or holds a value no call could have
  returned at that place, is no outcome of a run and gives \<open>None\<close>.
\<close>

datatype draw = DFloat real | DInt int

type_synonym rng = "draw list"

fun random_random :: "rng \<Rightarrow> (real \<times> rng) option" where
  "random_random (DFloat u # ds) = (if 0 \<le> u \<and> u < 1 then Some (u, ds) else None)"
| "random_random _ = None"

fun random_uniform :: "real \<Rightarrow> real \<Rightarrow> rng \<Rightarrow> (real \<times> rng) option" where
  "random_uniform a b (DFloat x # ds) = (if a \<le> x \<and> x \<le> b then Some (x, ds) else None)"
| "random_uniform a b _ = None"

fun random_gauss :: "real \<Rightarrow> real \<Rightarrow> rng \<Rightarrow> (real \<times> rng) option" where
  "random_gauss mu sigma (DFloat x # ds) = Some (x, ds)"
| "random_gauss mu sigma _ = None"

fun random_randint :: "int \<Rightarrow> int \<Rightarrow> rng \<Rightarrow> (int \<times> rng) option" where
  "random_randint a b (DInt i # ds) = (if a \<le> i \<and> i \<le> b then Some (i, ds) else None)"
| "random_randint a b _ = None"

subsection \<open>data\_server/simulator.py\<close>

text \<open>
  \<open>poisson_loop\<close> is the \<open>while p > L\<close> loop of \<open>_poisson_small\<close>, \<open>gen_row\<close> the body of the
  \<open>for i in range(n_switches)\<close> loop of \<open>generate_snapshot\<close> and \<open>gen_rows\<close> that loop;
  \<open>time_now\<close> is the value of \<open>time()\<close>.
\<close>

type_synonym MetricRow = "(string \<times> real) list"
type_synonym SimSnapshot = "int \<times> int \<times> string list \<times> (string \<times> MetricRow) list"

definition fmt_id :: "nat \<Rightarrow> string" where
  "fmt_id i = ''sw-'' @ fmt_03d i"

lemma random_random_shorter: "random_random ds = Some (u, ds') \<Longrightarrow> length ds' < length ds"
  by (induction ds rule: random_random.induct) (auto split: if_splits)

function poisson_loop :: "real \<Rightarrow> int \<Rightarrow> real \<Rightarrow> rng \<Rightarrow> (int \<times> rng) option" where
  "poisson_loop L k p ds =
     (if p > L then
        (case random_random ds of None \<Rightarrow> None
         | Some (u, ds') \<Rightarrow> poisson_loop L (k + 1) (p * u) ds')
      else Some (k, ds))"
  by pat_completeness auto
termination
  by (relation "measure (\<lambda>(L, k, p, ds). length ds)") (auto dest: random_random_shorter)

declare poisson_loop.simps [simp del]

definition poisson_small :: "real \<Rightarrow> rng \<Rightarrow> (int \<times> rng) option" where
  "poisson_small lam ds =
     (case poisson_loop (exp (- lam)) 0 1 ds of None \<Rightarrow> None
      | Some (k, ds') \<Rightarrow> Some (max 0 (k - 1), ds'))"

definition clip :: "real \<Rightarrow> real \<Rightarrow> real \<Rightarrow> real" where
  "clip x lo hi = max lo (min hi x)"

definition gen_row :: "rng \<Rightarrow> (MetricRow \<times> rng) option" where
  "gen_row r0 = do {
     (g_bw, r1) \<leftarrow> random_gauss 120 15 r0;
     let bw = max 0 g_bw;
     (u_lat, r2) \<leftarrow> random_random r1;
     (lat, r3) \<leftarrow> (if u_lat < 0.03 then random_uniform 50 150 r2
                  else do { (g, r) \<leftarrow> random_gauss 10 2 r2; Some (max 1 g, r) });
     (u_pkt, r4) \<leftarrow> random_random r3;
     (pkt_errs, r5) \<leftarrow> (if u_pkt < 0.01 then random_randint 5 30 r4
                       else poisson_small 0.6 r4);
     (u_cpu, r6) \<leftarrow> random_random r5;
     (cpu, r7) \<leftarrow> (if u_cpu < 0.05 then random_uniform 80 100 r6
                  else do { (g, r) \<leftarrow> random_gauss 35 10 r6; Some (clip g 0 100, r) });
     (g_mem, r8) \<leftarrow> random_gauss 60 15 r7;
     let mem = clip g_mem 0 100;
     (u_buf, r9) \<leftarrow> random_random r8;
     (buf, r10) \<leftarrow> (if u_buf < 0.08 then random_uniform 70 100 r9
                   else do { (g, r) \<leftarrow> random_gauss 30 15 r9; Some (clip g 0 100, r) });
     (u_drops, r11) \<leftarrow> random_random r10;
     (drops, r12) \<leftarrow> (if u_drops < 0.02 then random_uniform 100 1000 r11
                     else do { (k, r) \<leftarrow> poisson_small (1 + (buf / 100) * 0.5) r11;
                               Some (real_of_int k, r) });
     (g_temp, r13) \<leftarrow> random_gauss 45 3 r12;
     let temp = clip (g_temp + 0.06 * cpu) 30 90;
     Some ([(''bandwidth_gbps'', py_round2 bw),
            (''latency_us'', py_round2 lat),
            (''packet_errors'', real_of_int pkt_errs),
            (''cpu_util_pct'', py_round2 cpu),
            (''mem_util_pct'', py_round2 mem),
            (''buffer_occupancy_pct'', py_round2 buf),
            (''egress_drops_per_s'', py_round2 drops),
            (''temperature_c'', py_round2 temp)], r13)
   }"

fun gen_rows :: "nat list \<Rightarrow> (string \<times> MetricRow) list \<Rightarrow> rng \<Rightarrow>
    ((string \<times> MetricRow) list \<times> rng) option" where
  "gen_rows [] rows ds = Some (rows, ds)"
| "gen_rows (i # is) rows ds =
     (case gen_row ds of None \<Rightarrow> None
      | Some (vals, ds') \<Rightarrow> gen_rows is (AList.update (fmt_id i) vals rows) ds')"

definition metric_fields :: "string list" where
  "metric_fields = [''bandwidth_gbps'', ''latency_us'', ''packet_errors'', ''cpu_util_pct'',
     ''mem_util_pct'', ''buffer_occupancy_pct'', ''egress_drops_per_s'', ''temperature_c'']"

definition int_trunc :: "real \<Rightarrow> int" where
  "int_trunc x = (if 0 \<le> x then \<lfloor>x\<rfloor> else \<lceil>x\<rceil>)"

definition generate_snapshot :: "int \<Rightarrow> int \<Rightarrow> real \<Rightarrow> rng \<Rightarrow> (SimSnapshot \<times> rng) option" where
  "generate_snapshot n_switches prev_id time_now ds =
     (let snapshot_id = prev_id + 1;
          ts_ms = int_trunc (time_now * 1000);
          flds = metric_fields
      in case gen_rows [0..<nat n_switches] [] ds of None \<Rightarrow> None
         | Some (rows, ds') \<Rightarrow> Some ((snapshot_id, ts_ms, flds, rows), ds'))"

subsection \<open>data\_server/config.py and data\_server/app.py\<close>

text \<open>
  \<open>csv.writer\<close> and \<open>csv.reader\<close> are the standard library: the text they exchange is
  modelled as the sequence of records that the writer is given and the reader yields, a blank
  line being the empty record. \<open>counters_read\<close> is the part of the view \<open>counters\<close> from
  \<open>with _lock:\<close> to the final \<open>return resp\<close>; \<open>counters\<close> puts the fault injection in front
  of it. A \<open>KeyError\<close> out of \<open>_to_csv\<close> leaves the view as an exception.
\<close>

type_synonym csv_text = "string list list"
type_synonym headers = "string \<rightharpoonup> string"

record Config =
  FAULT_500_PCT :: int
  FAULT_SLOW_MS :: int

record Response =
  status :: int
  body :: csv_text
  resp_headers :: headers

fun lookup_fields :: "MetricRow \<Rightarrow> string list \<Rightarrow> py_error + real list" where
  "lookup_fields vals [] = Inr []"
| "lookup_fields vals (k # ks) =
     (case map_of vals k of None \<Rightarrow> Inl KeyError
      | Some v \<Rightarrow> (case lookup_fields vals ks of Inl e \<Rightarrow> Inl e | Inr vs \<Rightarrow> Inr (v # vs)))"

fun write_rows :: "(real \<Rightarrow> string) \<Rightarrow> string list \<Rightarrow> (string \<times> MetricRow) list \<Rightarrow>
    py_error + csv_text" where
  "write_rows fstr flds [] = Inr []"
| "write_rows fstr flds ((sw, vals) # rows) =
     (case lookup_fields vals flds of Inl e \<Rightarrow> Inl e
      | Inr vs \<Rightarrow>
          (case write_rows fstr flds rows of Inl e \<Rightarrow> Inl e
           | Inr out \<Rightarrow> Inr ((sw # map fstr vs) # out)))"

definition to_csv :: "(real \<Rightarrow> string) \<Rightarrow> SimSnapshot \<Rightarrow> py_error + csv_text" where
  "to_csv fstr s =
     (case s of (sid, ts_ms, flds, rows) \<Rightarrow>
        (case write_rows fstr flds rows of Inl e \<Rightarrow> Inl e
         | Inr out \<Rightarrow> Inr ((''switch_id'' # flds) # out)))"

definition response_headers :: "string \<Rightarrow> int \<Rightarrow> headers" where
  "response_headers etag ts_ms =
     [''ETag'' \<mapsto> etag, ''X-Snapshot-Ts'' \<mapsto> str_int ts_ms, ''Cache-Control'' \<mapsto> ''no-store'']"

definition counters_read :: "(real \<Rightarrow> string) \<Rightarrow> SimSnapshot \<Rightarrow> string option \<Rightarrow>
    py_error + Response" where
  "counters_read fstr snapshot inm =
     (case snapshot of (sid, ts_ms, flds, rows) \<Rightarrow>
        let etag = str_int sid in
        if inm \<noteq> None \<and> inm \<noteq> Some [] \<and> inm = Some etag then
          Inr \<lparr>status = 304, body = [], resp_headers = response_headers etag ts_ms\<rparr>
        else
          (case to_csv fstr snapshot of Inl e \<Rightarrow> Inl e
           | Inr csv_text \<Rightarrow>
               Inr \<lparr>status = 200, body = csv_text, resp_headers = response_headers etag ts_ms\<rparr>))"

definition injected_failure :: Response where
  "injected_failure =
     \<lparr>status = 500, body = [[''{\"error\":\"injected failure\"}'']], resp_headers = Map.empty\<rparr>"

definition counters :: "Config \<Rightarrow> (real \<Rightarrow> string) \<Rightarrow> SimSnapshot \<Rightarrow> string option \<Rightarrow> rng \<Rightarrow>
    ((py_error + Response) \<times> rng) option" where
  "counters cfg fstr snapshot inm r0 = do {
     (fault, r1) \<leftarrow> (if FAULT_500_PCT cfg > 0
                     then do { (k, r) \<leftarrow> random_randint 1 100 r0;
                               Some (k \<le> FAULT_500_PCT cfg, r) }
                     else Some (False, r0));
     if fault then Some (Inr injected_failure, r1)
     else do {
       r2 \<leftarrow> (if FAULT_SLOW_MS cfg > 0
               then do { (u, r) \<leftarrow> random_random r1; Some r }
               else Some r1);
       Some (counters_read fstr snapshot inm, r2)
     }
   }"

subsection \<open>metrics\_server/store.py\<close>

record SnapshotMeta =
  snapshot_id :: string
  ts_ms :: int
  fields' :: "string list"

record Snapshot =
  meta :: SnapshotMeta
  data :: "(string \<times> MetricRow) list"

record SnapshotStore =
  snap :: "Snapshot option"

definition store_set :: "SnapshotStore \<Rightarrow> Snapshot \<Rightarrow> SnapshotStore" where
  "store_set st s = st\<lparr>snap := Some s\<rparr>"

definition store_get :: "SnapshotStore \<Rightarrow> Snapshot option" where
  "store_get st = snap st"

definition age_ms :: "SnapshotStore \<Rightarrow> real \<Rightarrow> int option" where
  "age_ms st time_now =
     (case store_get st of None \<Rightarrow> None
      | Some s \<Rightarrow> Some (int_trunc (time_now * 1000) - ts_ms (meta s)))"

subsection \<open>metrics\_server/poller.py\<close>

text \<open>
  \<open>float_cell\<close> is the body of the inner \<open>try\<close> of \<open>_parse_csv\<close> and \<open>cell_value\<close> adds its
  \<open>except (ValueError, IndexError)\<close>. \<open>try_block\<close> is the \<open>try\<close> suite of one iteration of
  \<open>_run\<close> for a given result of \<open>self._client.get\<close>, \<open>run_cycle\<close> adds the \<open>except Exception\<close>
  and \<open>finally\<close> suites (\<open>cycle_ms\<close> is the measured duration), and \<open>run\<close> is the loop over
  the fetch results met before \<open>_stopping\<close> is set. \<open>classify\<close> names the three outcomes of a
  cycle.
\<close>

definition float_cell :: "(string \<Rightarrow> real option) \<Rightarrow> string list \<Rightarrow> nat \<Rightarrow> py_error + real" where
  "float_cell pfloat row idx =
     (if 1 + idx < length row then
        (case pfloat (row ! (1 + idx)) of None \<Rightarrow> Inl ValueError | Some v \<Rightarrow> Inr v)
      else Inl IndexError)"

definition cell_value :: "(string \<Rightarrow> real option) \<Rightarrow> string list \<Rightarrow> nat \<Rightarrow> real" where
  "cell_value pfloat row idx = (case float_cell pfloat row idx of Inl e \<Rightarrow> 0 | Inr v \<Rightarrow> v)"

fun row_vals :: "(string \<Rightarrow> real option) \<Rightarrow> string list \<Rightarrow> (nat \<times> string) list \<Rightarrow> MetricRow \<Rightarrow>
    MetricRow" where
  "row_vals pfloat row [] vals = vals"
| "row_vals pfloat row ((idx, name) # rest) vals =
     row_vals pfloat row rest (AList.update name (cell_value pfloat row idx) vals)"

fun parse_rows :: "(string \<Rightarrow> real option) \<Rightarrow> string list \<Rightarrow> csv_text \<Rightarrow>
    (string \<times> MetricRow) list \<Rightarrow> (string \<times> MetricRow) list" where
  "parse_rows pfloat flds [] data' = data'"
| "parse_rows pfloat flds ([] # rows) data' = parse_rows pfloat flds rows data'"
| "parse_rows pfloat flds ((sw # cells) # rows) data' =
     parse_rows pfloat flds rows
       (AList.update sw (row_vals pfloat (sw # cells) (enumerate 0 flds) []) data')"

definition parse_csv :: "(string \<Rightarrow> real option) \<Rightarrow> csv_text \<Rightarrow> headers \<Rightarrow> py_error + Snapshot" where
  "parse_csv pfloat csv_text hdrs =
     (case int_of_str (case hdrs ''X-Snapshot-Ts'' of None \<Rightarrow> ''0'' | Some v \<Rightarrow> v) of
        None \<Rightarrow> Inl ValueError
      | Some ts \<Rightarrow>
          let etag = (case hdrs ''ETag'' of None \<Rightarrow> [] | Some v \<Rightarrow> v) in
          (case csv_text of [] \<Rightarrow> Inl StopIteration
           | first # reader \<Rightarrow>
               (case first of [] \<Rightarrow> Inl ValueError
                | c # fs \<Rightarrow>
                    if c \<noteq> ''switch_id'' then Inl ValueError
                    else
                      let data = parse_rows pfloat fs reader [] in
                      Inr \<lparr>meta = \<lparr>snapshot_id = (if etag \<noteq> [] then etag else ''0''),
                                    ts_ms = ts, fields' = fs\<rparr>,
                           data = data\<rparr>)))"

record Poller =
  store :: SnapshotStore
  etag :: "string option"
  last_cycle_ms :: "int option"
  fail_count :: int

datatype fetch_result = Raised py_error | Returned Response

definition request_headers :: "Poller \<Rightarrow> headers" where
  "request_headers p =
     (case etag p of None \<Rightarrow> Map.empty
      | Some e \<Rightarrow> if e \<noteq> [] then [''If-None-Match'' \<mapsto> e] else Map.empty)"

definition try_block :: "(string \<Rightarrow> real option) \<Rightarrow> Poller \<Rightarrow> fetch_result \<Rightarrow> py_error + Poller" where
  "try_block pfloat p fr =
     (case fr of Raised e \<Rightarrow> Inl e
      | Returned r \<Rightarrow>
          if status r = 304 then Inr p
          else if status r = 200 then
            (case parse_csv pfloat (body r) (resp_headers r) of Inl e \<Rightarrow> Inl e
             | Inr s \<Rightarrow>
                 Inr (p\<lparr>store := store_set (store p) s,
                        etag := resp_headers r ''ETag'',
                        fail_count := 0\<rparr>))
          else Inr (p\<lparr>fail_count := fail_count p + 1\<rparr>))"

definition run_cycle :: "(string \<Rightarrow> real option) \<Rightarrow> Poller \<Rightarrow> fetch_result \<times> int \<Rightarrow> Poller" where
  "run_cycle pfloat p c =
     (case c of (fr, cycle_ms) \<Rightarrow>
        (case try_block pfloat p fr of
           Inl e \<Rightarrow> p\<lparr>fail_count := fail_count p + 1\<rparr>
         | Inr p' \<Rightarrow> p')\<lparr>last_cycle_ms := Some cycle_ms\<rparr>)"

fun run :: "(string \<Rightarrow> real option) \<Rightarrow> Poller \<Rightarrow> (fetch_result \<times> int) list \<Rightarrow> Poller" where
  "run pfloat p [] = p"
| "run pfloat p (c # cs) = run pfloat (run_cycle pfloat p c) cs"

datatype outcome = Unchanged | Updated | Failed

definition classify :: "(string \<Rightarrow> real option) \<Rightarrow> fetch_result \<Rightarrow> outcome" where
  "classify pfloat fr =
     (case fr of Raised e \<Rightarrow> Failed
      | Returned r \<Rightarrow>
          if status r = 304 then Unchanged
          else if status r = 200 then
            (case parse_csv pfloat (body r) (resp_headers r) of Inl e \<Rightarrow> Failed | Inr s \<Rightarrow> Updated)
          else Failed)"

subsection \<open>metrics\_server/stats.py\<close>

text \<open>
  \<open>RollingStats.map\<close> maps a key to a \<open>deque(maxlen=capacity)\<close> of integer latencies.
  Appending to a full deque drops the oldest element. In \<open>pick\<close> the product \<open>p * n\<close> is
  taken over the reals; the three constants \<open>0.50\<close>, \<open>0.95\<close> and \<open>0.99\<close> are the
  fractions \<open>50/100\<close>, \<open>95/100\<close> and \<open>99/100\<close>.
\<close>

record RollingStats =
  capacity :: nat
  smap :: "string \<rightharpoonup> int list"

definition deque_append :: "nat \<Rightarrow> int list \<Rightarrow> int \<Rightarrow> int list" where
  "deque_append maxlen dq x = (let dq' = dq @ [x] in drop (length dq' - maxlen) dq')"

definition samples :: "RollingStats \<Rightarrow> string \<Rightarrow> int list" where
  "samples st key = (case smap st key of None \<Rightarrow> [] | Some dq \<Rightarrow> dq)"

definition add :: "RollingStats \<Rightarrow> string \<Rightarrow> int \<Rightarrow> RollingStats" where
  "add st key latency_ms =
     st\<lparr>smap := (smap st)(key \<mapsto> deque_append (capacity st) (samples st key) latency_ms)\<rparr>"

record Percentiles =
  p50 :: real
  p95 :: real
  p99 :: real
  pmax :: real
  count :: nat

definition pick :: "int list \<Rightarrow> real \<Rightarrow> real" where
  "pick arr p =
     (let n = int (length arr) in
      if n = 0 then 0
      else real_of_int (arr ! nat (max 0 (min (n - 1) (\<lceil>p * real_of_int n\<rceil> - 1)))))"

definition percentiles :: "RollingStats \<Rightarrow> string \<Rightarrow> Percentiles" where
  "percentiles st key =
     (let dq = samples st key in
      if dq = [] then \<lparr>p50 = 0, p95 = 0, p99 = 0, pmax = 0, count = 0\<rparr>
      else
        let arr = sort dq; n = length arr in
        \<lparr>p50 = pick arr (50 / 100), p95 = pick arr (95 / 100), p99 = pick arr (99 / 100),
         pmax = real_of_int (arr ! (n - 1)), count = n\<rparr>)"

definition new_stats :: "nat \<Rightarrow> RollingStats" where
  "new_stats cap = \<lparr>capacity = cap, smap = Map.empty\<rparr>"

text \<open>The index rule in the words of the specification.\<close>

definition clamp :: "int \<Rightarrow> int \<Rightarrow> int \<Rightarrow> int" where
  "clamp x lo hi = (if x < lo then lo else if hi < x then hi else x)"

definition spec_index :: "real \<Rightarrow> nat \<Rightarrow> nat" where
  "spec_index p n = nat (clamp (\<lceil>p * real n\<rceil> - 1) 0 (int n - 1))"

subsection \<open>Notions used in the statements\<close>

text \<open>
  \<open>cells\<close> lists the values that the inner loop of \<open>_parse_csv\<close> assigns, in order;
  \<open>row_entry\<close> is the assignment \<open>data[sw] = vals\<close> for one non-blank row and \<open>entries\<close>
  lists these assignments for a payload, in order. \<open>rows_complete\<close> says that every row of
  a snapshot has a value for every field, and \<open>encode_row\<close> is the record that \<open>_to_csv\<close>
  writes for such a row. \<open>two_decimals\<close> and \<open>whole\<close> say that a value is a multiple of
  0.01 and of 1; \<open>row_in_clip\<close> lists the clip ranges of the eight metrics and
  \<open>row_storage\<close> the form in which a generated row stores them.
\<close>

definition cells :: "(string \<Rightarrow> real option) \<Rightarrow> string list \<Rightarrow> (nat \<times> string) list \<Rightarrow> MetricRow" where
  "cells pf row ixs = map (\<lambda>(idx, name). (name, cell_value pf row idx)) ixs"

definition row_entry :: "(string \<Rightarrow> real option) \<Rightarrow> string list \<Rightarrow> string list \<Rightarrow> string \<times> MetricRow" where
  "row_entry pf flds row = (hd row, row_vals pf row (enumerate 0 flds) [])"

definition entries :: "(string \<Rightarrow> real option) \<Rightarrow> string list \<Rightarrow> csv_text \<Rightarrow> (string \<times> MetricRow) list" where
  "entries pf flds rows = map (row_entry pf flds) (filter (\<lambda>r. r \<noteq> []) rows)"

definition rows_complete :: "SimSnapshot \<Rightarrow> bool" where
  "rows_complete s =
     (case s of (sid, ts, flds, rows) \<Rightarrow>
        \<forall>(sw, vals) \<in> set rows. \<forall>k \<in> set flds. map_of vals k \<noteq> None)"

definition encode_row :: "(real \<Rightarrow> string) \<Rightarrow> string list \<Rightarrow> string \<times> MetricRow \<Rightarrow> string list" where
  "encode_row fstr flds e = fst e # map (\<lambda>k. fstr (the (map_of (snd e) k))) flds"

definition two_decimals :: "real \<Rightarrow> bool" where
  "two_decimals x = (\<exists>n :: int. x = of_int n / 100)"

definition whole :: "real \<Rightarrow> bool" where
  "whole x = (\<exists>n :: int. x = of_int n)"

definition row_in_clip :: "MetricRow \<Rightarrow> bool" where
  "row_in_clip vals =
     (\<exists>bw lat pe cpu mem buf drops temp.
        map_of vals ''bandwidth_gbps'' = Some bw \<and> 0 \<le> bw \<and>
        map_of vals ''latency_us'' = Some lat \<and> 1 \<le> lat \<and>
        map_of vals ''packet_errors'' = Some pe \<and> 0 \<le> pe \<and>
        map_of vals ''cpu_util_pct'' = Some cpu \<and> 0 \<le> cpu \<and> cpu \<le> 100 \<and>
        map_of vals ''mem_util_pct'' = Some mem \<and> 0 \<le> mem \<and> mem \<le> 100 \<and>
        map_of vals ''buffer_occupancy_pct'' = Some buf \<and> 0 \<le> buf \<and> buf \<le> 100 \<and>
        map_of vals ''egress_drops_per_s'' = Some drops \<and> 0 \<le> drops \<and>
        map_of vals ''temperature_c'' = Some temp \<and> 30 \<le> temp \<and> temp \<le> 90)"

definition row_storage :: "MetricRow \<Rightarrow> bool" where
  "row_storage vals =
     (\<exists>bw lat pe cpu mem buf drops temp.
        vals = [(''bandwidth_gbps'', bw), (''latency_us'', lat), (''packet_errors'', pe),
                (''cpu_util_pct'', cpu), (''mem_util_pct'', mem),
                (''buffer_occupancy_pct'', buf), (''egress_drops_per_s'', drops),
                (''temperature_c'', temp)] \<and>
        whole pe \<and> two_decimals bw \<and> two_decimals lat \<and> two_decimals cpu \<and>
        two_decimals mem \<and> two_decimals buf \<and> two_decimals drops \<and> two_decimals temp \<and>
        (whole drops \<or> 100 \<le> drops \<and> drops \<le> 1000))"

subsection \<open>Concrete inputs\<close>

definition quiet_row :: rng where
  "quiet_row = [DFloat 118.437, DFloat 0.5, DFloat 10.218, DFloat 0.5, DFloat 0, DFloat 0.5,
     DFloat 35.5, DFloat 61.004, DFloat 0.5, DFloat 29.1, DFloat 0.5, DFloat 0, DFloat 45.2]"

definition burst_row :: rng where
  "burst_row = [DFloat 131.2, DFloat 0.01, DFloat 77.777, DFloat 0.001, DInt 12, DFloat 0.04,
     DFloat 91.5, DFloat 140, DFloat 0.07, DFloat 88.125, DFloat 0.01, DFloat 100.453, DFloat 20]"

definition p0 :: Poller where
  "p0 = \<lparr>store = \<lparr>snap = None\<rparr>, etag = None, last_cycle_ms = None, fail_count = 0\<rparr>"

definition ok7 :: fetch_result where
  "ok7 = Returned \<lparr>status = 200,
     body = [[''switch_id'', ''bandwidth_gbps''], [''sw-000'', ''118.44'']],
     resp_headers = response_headers ''7'' 1700000000123\<rparr>"

definition not_modified7 :: fetch_result where
  "not_modified7 =
     Returned \<lparr>status = 304, body = [], resp_headers = response_headers ''7'' 1700000000123\<rparr>"

definition demo_float :: "string \<Rightarrow> real option" where
  "demo_float s =
     (if s = ''1.5'' then Some 1.5 else if s = ''2.0'' then Some 2
      else if s = ''118.44'' then Some 118.44 else None)"

definition payload8 :: csv_text where
  "payload8 = [[''switch_id'', ''latency_us'', ''cpu_util_pct''],
     [''sw-000'', ''1.5'', ''NaNtext''], [], [''sw-001'', ''2.0'']]"

definition payload9 :: csv_text where
  "payload9 = [[''switch_id'', ''latency_us''],
     [''sw-000'', ''1.5''], [''sw-001'', ''118.44''], [''sw-000'', ''2.0'']]"

definition demo_str :: "real \<Rightarrow> string" where
  "demo_str x =
     (if x = 1.5 then ''1.5'' else if x = 2 then ''2.0''
      else if x = 118.44 then ''118.44'' else ''0.0'')"

definition snap7 :: SimSnapshot where
  "snap7 = (7, 1700000000123, [''latency_us'', ''cpu_util_pct''],
     [(''sw-000'', [(''latency_us'', 1.5), (''cpu_util_pct'', 2)]),
      (''sw-001'', [(''latency_us'', 118.44), (''cpu_util_pct'', 1.5)])])"

definition csv7 :: csv_text where
  "csv7 = [[''switch_id'', ''latency_us'', ''cpu_util_pct''],
     [''sw-000'', ''1.5'', ''2.0''], [''sw-001'', ''118.44'', ''1.5'']]"

definition quiet_vals :: MetricRow where
  "quiet_vals = [(''bandwidth_gbps'', 118.44), (''latency_us'', 10.22), (''packet_errors'', 0),
     (''cpu_util_pct'', 35.5), (''mem_util_pct'', 61), (''buffer_occupancy_pct'', 29.1),
     (''egress_drops_per_s'', 0), (''temperature_c'', 47.33)]"

definition burst_vals :: MetricRow where
  "burst_vals = [(''bandwidth_gbps'', 131.2), (''latency_us'', 77.78), (''packet_errors'', 12),
     (''cpu_util_pct'', 91.5), (''mem_util_pct'', 100), (''buffer_occupancy_pct'', 88.12),
     (''egress_drops_per_s'', 100.45), (''temperature_c'', 30)]"

definition gen2 :: SimSnapshot where
  "gen2 = (7, 1700000000123, metric_fields, [(''sw-000'', quiet_vals), (''sw-001'', burst_vals)])"

definition gen2_str :: "real \<Rightarrow> string" where
  "gen2_str x =
     (if x = 118.44 then ''118.44'' else if x = 10.22 then ''10.22'' else if x = 0 then ''0.0''
      else if x = 35.5 then ''35.5'' else if x = 61 then ''61.0'' else if x = 29.1 then ''29.1''
      else if x = 47.33 then ''47.33'' else if x = 131.2 then ''131.2''
      else if x = 77.78 then ''77.78'' else if x = 12 then ''12.0'' else if x = 91.5 then ''91.5''
      else if x = 100 then ''100.0'' else if x = 88.12 then ''88.12''
      else if x = 100.45 then ''100.45'' else ''30.0'')"

definition csv2 :: csv_text where
  "csv2 = [[''switch_id'', ''bandwidth_gbps'', ''latency_us'', ''packet_errors'', ''cpu_util_pct'',
      ''mem_util_pct'', ''buffer_occupancy_pct'', ''egress_drops_per_s'', ''temperature_c''],
     [''sw-000'', ''118.44'', ''10.22'', ''0.0'', ''35.5'', ''61.0'', ''29.1'', ''0.0'', ''47.33''],
     [''sw-001'', ''131.2'', ''77.78'', ''12.0'', ''91.5'', ''100.0'', ''88.12'', ''100.45'',
      ''30.0'']]"

definition st3 :: RollingStats where
  "st3 = add (add (add (new_stats 1000) ''q'' 30) ''q'' 10) ''q'' 20"

section \<open>Evaluation lemmas\<close>

lemma poisson_small_zero: "0 < lam \<Longrightarrow> poisson_small lam (DFloat 0 # ds) = Some (0, ds)"
  by (simp add: poisson_small_def poisson_loop.simps[of _ _ _ "DFloat 0 # ds"] poisson_loop.simps[of _ _ 0])

lemma gen_row_quiet: "gen_row (quiet_row @ ds) = Some (quiet_vals, ds)"
  by (simp add: gen_row_def quiet_row_def quiet_vals_def poisson_small_zero clip_def
      py_round2_def Let_def)

lemma gen_row_burst: "gen_row (burst_row @ ds) = Some (burst_vals, ds)"
  by (simp add: gen_row_def burst_row_def burst_vals_def poisson_small_zero clip_def
      py_round2_def Let_def)

lemma fmt_id_0_1: "fmt_id 0 = ''sw-000''" "fmt_id (Suc 0) = ''sw-001''"
  by (simp_all add: fmt_id_def fmt_03d_def str_nat.simps digit_char_def eval_nat_numeral)

lemma generate_gen2:
  "generate_snapshot 2 6 1700000000.1234 (quiet_row @ burst_row) = Some (gen2, [])"
  using gen_row_quiet[of burst_row] gen_row_burst[of "[]"]
  by (simp add: generate_snapshot_def gen2_def int_trunc_def eval_nat_numeral fmt_id_0_1)

section \<open>Rolling statistics\<close>

lemma max_min_clamp: "lo \<le> hi \<Longrightarrow> max lo (min hi x) = clamp x lo hi"
  by (simp add: clamp_def max_def min_def)

lemma pick_spec_index:
  assumes "arr \<noteq> []"
  shows "pick arr p = real_of_int (arr ! spec_index p (length arr))"
proof -
  have n: "(0::int) \<le> int (length arr) - 1" using assms by (cases arr) auto
  show ?thesis
    using assms by (simp add: pick_def spec_index_def Let_def max_min_clamp[OF n])
qed

lemma spec_index_less: "0 < n \<Longrightarrow> spec_index p n < n"
  by (auto simp: spec_index_def clamp_def)

lemma spec_index_one: "spec_index p (Suc 0) = 0"
  by (auto simp: spec_index_def clamp_def)

lemma sorted_last_Max:
  fixes ys :: "int list"
  shows "sorted ys \<Longrightarrow> ys \<noteq> [] \<Longrightarrow> last ys = Max (set ys)"
proof (induction ys)
  case Nil
  then show ?case by simp
next
  case (Cons a ys)
  show ?case
  proof (cases "ys = []")
    case True
    then show ?thesis by simp
  next
    case False
    have "a \<le> last ys" using Cons.prems False by auto
    then show ?thesis using Cons False by (simp add: max_def)
  qed
qed

lemma sort_last_Max:
  fixes xs :: "int list"
  assumes "xs \<noteq> []"
  shows "last (sort xs) = Max (set xs)"
proof -
  have ne: "sort xs \<noteq> []" using assms by (metis length_0_conv length_sort)
  show ?thesis using sorted_last_Max[OF sorted_sort ne] by simp
qed

text \<open>
  Claim C5. \<open>RollingStats.percentiles(key)\<close>: a key with no samples gives
  \<open>p50 = p95 = p99 = max = 0.0\<close> and \<open>count = 0\<close>. A key with \<open>n \<ge> 1\<close> samples gives, for
  each percentile \<open>p\<close> of 0.50, 0.95 and 0.99, the element of the ascending sort of the
  samples at index \<open>clamp(ceil(p * n) - 1, 0, n - 1)\<close>, \<open>max\<close> the last and largest element and
  \<open>count = n\<close>. With a single sample all percentiles equal it.
\<close>

theorem C5_percentiles:
  "(samples st key = [] \<longrightarrow>
      percentiles st key = \<lparr>p50 = 0, p95 = 0, p99 = 0, pmax = 0, count = 0\<rparr>) \<and>
   (samples st key \<noteq> [] \<longrightarrow>
      (let arr = sort (samples st key); n = length (samples st key) in
        sorted arr \<and> mset arr = mset (samples st key) \<and>
        p50 (percentiles st key) = real_of_int (arr ! spec_index (50 / 100) n) \<and>
        p95 (percentiles st key) = real_of_int (arr ! spec_index (95 / 100) n) \<and>
        p99 (percentiles st key) = real_of_int (arr ! spec_index (99 / 100) n) \<and>
        pmax (percentiles st key) = real_of_int (last arr) \<and>
        pmax (percentiles st key) = real_of_int (Max (set (samples st key))) \<and>
        count (percentiles st key) = n)) \<and>
   (\<forall>x. samples st key = [x] \<longrightarrow>
      p50 (percentiles st key) = real_of_int x \<and> p95 (percentiles st key) = real_of_int x \<and>
      p99 (percentiles st key) = real_of_int x \<and> pmax (percentiles st key) = real_of_int x \<and>
      count (percentiles st key) = 1)"
proof (intro conjI impI allI)
  assume e: "samples st key = []"
  then show "percentiles st key = \<lparr>p50 = 0, p95 = 0, p99 = 0, pmax = 0, count = 0\<rparr>"
    by (simp add: percentiles_def)
next
  assume ne: "samples st key \<noteq> []"
  let ?dq = "samples st key"
  have sne: "sort ?dq \<noteq> []" using ne by (metis length_0_conv length_sort)
  have pk: "\<And>p. pick (sort ?dq) p = real_of_int (sort ?dq ! spec_index p (length ?dq))"
    using pick_spec_index[OF sne] by simp
  have lst: "sort ?dq ! (length (sort ?dq) - 1) = last (sort ?dq)"
    using sne by (simp add: last_conv_nth)
  show "let arr = sort ?dq; n = length ?dq in
        sorted arr \<and> mset arr = mset ?dq \<and>
        p50 (percentiles st key) = real_of_int (arr ! spec_index (50 / 100) n) \<and>
        p95 (percentiles st key) = real_of_int (arr ! spec_index (95 / 100) n) \<and>
        p99 (percentiles st key) = real_of_int (arr ! spec_index (99 / 100) n) \<and>
        pmax (percentiles st key) = real_of_int (last arr) \<and>
        pmax (percentiles st key) = real_of_int (Max (set ?dq)) \<and>
        count (percentiles st key) = n"
    using ne pk lst sort_last_Max[OF ne]
    by (simp add: percentiles_def Let_def)
next
  fix x assume x: "samples st key = [x]"
  show "p50 (percentiles st key) = real_of_int x" "p95 (percentiles st key) = real_of_int x"
    "p99 (percentiles st key) = real_of_int x" "pmax (percentiles st key) = real_of_int x"
    "count (percentiles st key) = 1"
    using x by (simp_all add: percentiles_def Let_def pick_def)
qed

theorem C5_percentiles_witness:
  "samples st3 ''z'' = [] \<and> percentiles st3 ''z'' = \<lparr>p50 = 0, p95 = 0, p99 = 0, pmax = 0, count = 0\<rparr> \<and>
   samples st3 ''q'' = [30, 10, 20] \<and> sort (samples st3 ''q'') = [10, 20, 30] \<and>
   p50 (percentiles st3 ''q'') = 20 \<and> p95 (percentiles st3 ''q'') = 30 \<and>
   p99 (percentiles st3 ''q'') = 30 \<and> pmax (percentiles st3 ''q'') = 30 \<and>
   count (percentiles st3 ''q'') = 3 \<and>
   samples (add (new_stats 1000) ''q'' 7) ''q'' = [7] \<and>
   p50 (percentiles (add (new_stats 1000) ''q'' 7) ''q'') = 7 \<and>
   p99 (percentiles (add (new_stats 1000) ''q'' 7) ''q'') = 7"
proof -
  have s1: "samples st3 ''z'' = []" and s2: "samples st3 ''q'' = [30, 10, 20]"
    and s3: "samples (add (new_stats 1000) ''q'' 7) ''q'' = [7]"
    by (simp_all add: st3_def add_def new_stats_def samples_def deque_append_def)
  have i: "spec_index (1 / 2) (Suc (Suc (Suc 0))) = 1"
    "spec_index (19 / 20) (Suc (Suc (Suc 0))) = 2"
    "spec_index (99 / 100) (Suc (Suc (Suc 0))) = 2"
    by (simp_all add: spec_index_def clamp_def)
  show ?thesis
    using C5_percentiles[of st3 "''z''"] C5_percentiles[of st3 "''q''"]
      C5_percentiles[of "add (new_stats 1000) ''q'' 7" "''q''"] s1 s2 s3 i
    by (simp add: Let_def)
qed

section \<open>Integers as text\<close>

lemma digit_cases: "d < 10 \<Longrightarrow> d \<in> {0, 1, 2, 3, 4, 5, 6, 7, 8, 9 :: nat}"
  by auto

lemma digit_char_props:
  assumes "d < 10"
  shows "is_digit (digit_char d)" "digit_val (digit_char d) = d" "\<not> is_space (digit_char d)"
    "digit_char d \<noteq> CHR ''-''" "digit_char d \<noteq> CHR ''+''" "digit_char d \<noteq> CHR ''_''"
  using digit_cases[OF assms]
  by (auto simp: digit_char_def is_digit_def digit_val_def is_space_def)

lemma digits_value_snoc:
  "\<forall>c \<in> set xs. is_digit c \<Longrightarrow> is_digit d \<Longrightarrow>
   digits_value acc (xs @ [d]) =
     map_option (\<lambda>a. a * 10 + digit_val d) (digits_value acc xs)"
  by (induction xs arbitrary: acc) auto

lemma str_nat_digits: "c \<in> set (str_nat n) \<Longrightarrow> is_digit c"
proof (induction n arbitrary: c rule: str_nat.induct)
  case (1 n)
  show ?case
  proof (cases "n < 10")
    case True
    then show ?thesis using "1.prems" by (simp add: str_nat.simps[of n] digit_char_props)
  next
    case False
    then show ?thesis using "1.prems" "1.IH"
      by (auto simp: str_nat.simps[of n] digit_char_props)
  qed
qed

lemma str_nat_nonempty: "str_nat n \<noteq> []"
  by (simp add: str_nat.simps[of n])

lemma digits_value_str_nat: "digits_value 0 (str_nat n) = Some n"
proof (induction n rule: str_nat.induct)
  case (1 n)
  show ?case
  proof (cases "n < 10")
    case True
    then show ?thesis by (simp add: str_nat.simps[of n] digit_char_props)
  next
    case False
    have d: "is_digit (digit_char (n mod 10))" by (simp add: digit_char_props)
    have "digits_value 0 (str_nat n) =
      map_option (\<lambda>a. a * 10 + digit_val (digit_char (n mod 10))) (digits_value 0 (str_nat (n div 10)))"
      using False digits_value_snoc[OF _ d, of "str_nat (n div 10)" 0] str_nat_digits
      by (simp add: str_nat.simps[of n])
    then show ?thesis using False "1.IH" by (simp add: digit_char_props)
  qed
qed

lemma nat_of_str_str_nat: "nat_of_str (str_nat n) = Some n"
proof -
  obtain c cs where e: "str_nat n = c # cs" using str_nat_nonempty[of n] by (cases "str_nat n") auto
  then have "is_digit c" using str_nat_digits[of c n] by simp
  then show ?thesis using e digits_value_str_nat[of n] by (simp add: nat_of_str_def)
qed

lemma dropWhile_hd_id: "s \<noteq> [] \<Longrightarrow> \<not> P (hd s) \<Longrightarrow> dropWhile P s = s"
  by (cases s) auto

lemma strip_id:
  assumes "s \<noteq> []" "\<not> is_space (hd s)" "\<not> is_space (last s)"
  shows "strip s = s"
proof -
  have "dropWhile is_space s = s" using assms by (simp add: dropWhile_hd_id)
  moreover have "dropWhile is_space (rev s) = rev s"
    using assms by (simp add: dropWhile_hd_id hd_rev)
  ultimately show ?thesis by (simp add: strip_def)
qed

lemma str_nat_ends:
  "\<not> is_space (hd (str_nat n))" "\<not> is_space (last (str_nat n))"
  "hd (str_nat n) \<noteq> CHR ''-''" "hd (str_nat n) \<noteq> CHR ''+''"
proof -
  have h: "hd (str_nat n) \<in> set (str_nat n)" and l: "last (str_nat n) \<in> set (str_nat n)"
    using str_nat_nonempty by simp_all
  have sp: "\<And>c. is_digit c \<Longrightarrow> \<not> is_space c \<and> c \<noteq> CHR ''-'' \<and> c \<noteq> CHR ''+''"
    by (auto simp: is_digit_def is_space_def)
  show "\<not> is_space (hd (str_nat n))" "\<not> is_space (last (str_nat n))"
    "hd (str_nat n) \<noteq> CHR ''-''" "hd (str_nat n) \<noteq> CHR ''+''"
    using sp str_nat_digits[OF h] str_nat_digits[OF l] by blast+
qed

lemma int_of_str_str_int: "int_of_str (str_int i) = Some i"
proof (cases "i < 0")
  case True
  let ?s = "CHR ''-'' # str_nat (nat (- i))"
  have "strip ?s = ?s"
    using str_nat_ends(2)[of "nat (- i)"] str_nat_nonempty[of "nat (- i)"]
    by (intro strip_id) (simp_all add: is_space_def)
  then show ?thesis using True by (simp add: int_of_str_def str_int_def nat_of_str_str_nat)
next
  case False
  let ?s = "str_nat (nat i)"
  obtain c cs where e: "?s = c # cs" using str_nat_nonempty[of "nat i"] by (cases ?s) auto
  have st: "strip ?s = ?s" using str_nat_ends[of "nat i"] str_nat_nonempty by (intro strip_id)
  have "c \<noteq> CHR ''-''" "c \<noteq> CHR ''+''" using str_nat_ends(3,4)[of "nat i"] e by simp_all
  then show ?thesis
    using False st e nat_of_str_str_nat[of "nat i"] by (simp add: int_of_str_def str_int_def)
qed

lemma str_int_nonempty: "str_int i \<noteq> []"
  by (simp add: str_int_def str_nat_nonempty)

section \<open>The reconciliation cycle\<close>

lemma ok7_parse:
  "parse_csv pf [[''switch_id'', ''bandwidth_gbps''], [''sw-000'', ''118.44'']]
     (response_headers ''7'' 1700000000123) =
   Inr \<lparr>meta = \<lparr>snapshot_id = ''7'', ts_ms = 1700000000123, fields' = [''bandwidth_gbps'']\<rparr>,
        data = [(''sw-000'', [(''bandwidth_gbps'', cell_value pf [''sw-000'', ''118.44''] 0)])]\<rparr>"
  by (simp add: parse_csv_def response_headers_def int_of_str_str_int enumerate_eq_zip)

lemma failed_cycle:
  assumes "classify pf fr = Failed"
  shows "store (run_cycle pf p (fr, ms)) = store p \<and> etag (run_cycle pf p (fr, ms)) = etag p \<and>
         fail_count (run_cycle pf p (fr, ms)) = fail_count p + 1"
  using assms
  by (auto simp: classify_def run_cycle_def try_block_def split: fetch_result.splits if_splits sum.splits)

lemma updated_cycle:
  assumes "classify pf fr = Updated"
  shows "fail_count (run_cycle pf p (fr, ms)) = 0 \<and>
    (\<exists>r s. fr = Returned r \<and> parse_csv pf (body r) (resp_headers r) = Inr s \<and>
       store_get (store (run_cycle pf p (fr, ms))) = Some s)"
  using assms
  by (auto simp: classify_def run_cycle_def try_block_def store_set_def store_get_def split: fetch_result.splits if_splits sum.splits)

lemma unchanged_cycle:
  assumes "classify pf fr = Unchanged"
  shows "run_cycle pf p (fr, ms) = p\<lparr>last_cycle_ms := Some ms\<rparr>"
  using assms
  by (auto simp: classify_def run_cycle_def try_block_def split: fetch_result.splits if_splits sum.splits)

text \<open>
  Claim C1. In every cycle of \<open>Poller._run\<close>: a Failed cycle (transport error, status other
  than 200 and 304, or parse error) raises nothing past the loop, leaves the store as it was and
  adds exactly 1 to \<open>fail_count\<close>; an Updated cycle and an Unchanged cycle (status 304) reset
  \<open>fail_count\<close> to 0. The first two parts are \<open>failed_cycle\<close> and \<open>updated_cycle\<close>. The
  304 branch performs no reset: after a successful fetch and one injected failure, a
  not-modified answer leaves the counter at 1.
\<close>

theorem C1_not_modified_keeps_fail_count:
  "classify pf ok7 = Updated \<and> fail_count (run pf p0 [(ok7, 4)]) = 0 \<and>
   classify pf (Returned injected_failure) = Failed \<and>
   fail_count (run pf p0 [(ok7, 4), (Returned injected_failure, 2)]) = 1 \<and>
   classify pf not_modified7 = Unchanged \<and>
   fail_count (run pf p0 [(ok7, 4), (Returned injected_failure, 2), (not_modified7, 1)]) = 1"
  by (simp add: classify_def run_cycle_def try_block_def ok7_def not_modified7_def p0_def
      injected_failure_def ok7_parse)

section \<open>Parsing the payload\<close>

lemma map_of_rev_last:
  assumes "kvs = pre @ (k, v) # post" "k \<notin> fst ` set post"
  shows "map_of (rev kvs) k = Some v"
proof -
  have "map_of (rev post) k = None" using assms(2) by (simp add: map_of_eq_None_iff)
  then show ?thesis using assms(1) by (simp add: map_add_def)
qed

lemma map_of_update_add:
  "map_of (AList.update k v al) ++ m = map_of al ++ (map_of [(k, v)] ++ m)"
  by (rule ext) (simp add: update_conv map_add_def split: option.splits)

lemma map_of_row_vals:
  "map_of (row_vals pf row ixs vals) = map_of vals ++ map_of (rev (cells pf row ixs))"
proof (induction ixs arbitrary: vals)
  case Nil
  then show ?case by (simp add: cells_def)
next
  case (Cons x ixs)
  obtain idx name where x: "x = (idx, name)" by (cases x)
  show ?case
    using Cons.IH[of "AList.update name (cell_value pf row idx) vals"]
    by (simp add: x cells_def map_of_update_add)
qed

lemma distinct_row_vals:
  "distinct (map fst vals) \<Longrightarrow> distinct (map fst (row_vals pf row ixs vals))"
  by (induction ixs arbitrary: vals) (auto simp: distinct_update)

lemma keys_row_vals:
  "fst ` set (row_vals pf row ixs vals) = fst ` set vals \<union> snd ` set ixs"
proof (induction ixs arbitrary: vals)
  case Nil
  then show ?case by simp
next
  case (Cons x ixs)
  obtain idx name where x: "x = (idx, name)" by (cases x)
  have "fst ` set (AList.update name (cell_value pf row idx) vals) = insert name (fst ` set vals)"
    using dom_update[of name "cell_value pf row idx" vals] by (simp add: dom_map_of_conv_image_fst)
  then show ?case using Cons.IH[of "AList.update name (cell_value pf row idx) vals"]
    by (auto simp: x)
qed

lemma map_of_parse_rows:
  "map_of (parse_rows pf flds rows d) = map_of d ++ map_of (rev (entries pf flds rows))"
proof (induction pf flds rows d rule: parse_rows.induct)
  case (1 pfloat flds data')
  then show ?case by (simp add: entries_def)
next
  case (2 pfloat flds rows data')
  then show ?case by (simp add: entries_def)
next
  case (3 pfloat flds sw cells rows data')
  then show ?case by (simp add: entries_def row_entry_def map_of_update_add)
qed

lemma distinct_parse_rows:
  "distinct (map fst d) \<Longrightarrow> distinct (map fst (parse_rows pf flds rows d))"
  by (induction pf flds rows d rule: parse_rows.induct) (auto simp: distinct_update)

lemma keys_parse_rows:
  "fst ` set (parse_rows pf flds rows d) = fst ` set d \<union> {hd r | r. r \<in> set rows \<and> r \<noteq> []}"
proof (induction pf flds rows d rule: parse_rows.induct)
  case (1 pfloat flds data')
  then show ?case by simp
next
  case (2 pfloat flds rows data')
  then show ?case by auto
next
  case (3 pfloat flds sw cells rows data')
  have "fst ` set (AList.update sw (row_vals pfloat (sw # cells) (enumerate 0 flds) []) data') =
      insert sw (fst ` set data')"
    using dom_update[of sw _ data'] by (simp add: dom_map_of_conv_image_fst)
  moreover have "{hd r | r. r \<in> set ((sw # cells) # rows) \<and> r \<noteq> []} =
      insert sw {hd r | r. r \<in> set rows \<and> r \<noteq> []}"
    by (auto intro: exI[of _ "sw # cells"])
  ultimately show ?case using "3.IH" by auto
qed

lemma parse_rows_skip_blank:
  "parse_rows pf flds (filter (\<lambda>r. r \<noteq> []) rows) d = parse_rows pf flds rows d"
  by (induction pf flds rows d rule: parse_rows.induct) auto

lemma fst_entries:
  "fst ` set (entries pf flds rows) = {hd r | r. r \<in> set rows \<and> r \<noteq> []}"
  by (auto simp: entries_def row_entry_def image_iff)

lemma data_last_wins:
  assumes "reader = pre @ row # post" "row \<noteq> []"
    and "\<forall>q \<in> set post. q \<noteq> [] \<longrightarrow> hd q \<noteq> hd row"
  shows "map_of (parse_rows pf flds reader []) (hd row) =
           Some (row_vals pf row (enumerate 0 flds) [])"
proof -
  have e: "entries pf flds reader =
      entries pf flds pre @ (hd row, row_vals pf row (enumerate 0 flds) []) # entries pf flds post"
    using assms(1,2) by (simp add: entries_def row_entry_def)
  have "hd row \<notin> fst ` set (entries pf flds post)"
    using assms(3) by (auto simp: fst_entries)
  from map_of_rev_last[OF e this] show ?thesis by (simp add: map_of_parse_rows)
qed

lemma cell_value_unfold:
  "cell_value pf row idx =
     (if 1 + idx < length row then (case pf (row ! (1 + idx)) of None \<Rightarrow> 0 | Some v \<Rightarrow> v) else 0)"
  by (simp add: cell_value_def float_cell_def split: option.splits)

lemma map_fst_cells: "map fst (cells pf row ixs) = map snd ixs"
  by (induction ixs) (auto simp: cells_def)

lemma vals_last_wins:
  assumes "idx < length flds" "flds ! idx \<notin> set (drop (Suc idx) flds)"
  shows "map_of (row_vals pf row (enumerate 0 flds) []) (flds ! idx) = Some (cell_value pf row idx)"
proof -
  let ?e = "enumerate 0 flds"
  have len: "idx < length ?e" using assms(1) by simp
  have nth: "?e ! idx = (idx, flds ! idx)" using assms(1) by (simp add: nth_enumerate_eq)
  have "?e = take idx ?e @ ?e ! idx # drop (Suc idx) ?e"
    using len by (rule id_take_nth_drop)
  then have "cells pf row ?e = cells pf row (take idx ?e) @
      (flds ! idx, cell_value pf row idx) # cells pf row (drop (Suc idx) ?e)"
    unfolding cells_def by (metis (no_types, lifting) nth case_prod_conv list.simps(9) map_append)
  moreover have "fst ` set (cells pf row (drop (Suc idx) ?e)) = set (drop (Suc idx) flds)"
  proof -
    have "map snd (drop (Suc idx) ?e) = drop (Suc idx) (map snd ?e)"
      by (rule drop_map[symmetric])
    then have "map fst (cells pf row (drop (Suc idx) ?e)) = drop (Suc idx) flds"
      by (simp add: map_fst_cells)
    then show ?thesis by (metis set_map)
  qed
  ultimately have "map_of (rev (cells pf row ?e)) (flds ! idx) = Some (cell_value pf row idx)"
    using assms(2) by (intro map_of_rev_last) auto
  then show ?thesis by (simp add: map_of_row_vals)
qed

lemma vals_total:
  assumes "name \<in> set flds"
  shows "map_of (row_vals pf row (enumerate 0 flds) []) name \<noteq> None"
proof -
  have "fst ` set (row_vals pf row (enumerate 0 flds) []) = set flds"
    by (simp add: keys_row_vals) (metis map_snd_enumerate set_map)
  then show ?thesis using assms by (simp add: map_of_eq_None_iff)
qed

lemma data_kept:
  assumes "row \<in> set reader" "row \<noteq> []"
  shows "\<exists>vals. map_of (parse_rows pf flds reader []) (hd row) = Some vals \<and>
           (\<forall>name \<in> set flds. map_of vals name \<noteq> None)"
proof -
  let ?k = "hd row"
  have "?k \<in> fst ` set (parse_rows pf flds reader [])"
    using assms by (auto simp: keys_parse_rows)
  then obtain vals where v: "map_of (parse_rows pf flds reader []) ?k = Some vals"
    by (metis map_of_eq_None_iff not_Some_eq)
  then have "map_of (rev (entries pf flds reader)) ?k = Some vals"
    by (simp add: map_of_parse_rows)
  then have "(?k, vals) \<in> set (entries pf flds reader)"
    using map_of_SomeD by fastforce
  then obtain r where "vals = row_vals pf r (enumerate 0 flds) []"
    by (auto simp: entries_def row_entry_def)
  then show ?thesis using v vals_total by blast
qed

lemma parse_csv_ok:
  assumes "int_of_str (case hdrs ''X-Snapshot-Ts'' of None \<Rightarrow> ''0'' | Some v \<Rightarrow> v) = Some ts"
  shows "parse_csv pf ((''switch_id'' # flds) # reader) hdrs =
     Inr \<lparr>meta = \<lparr>snapshot_id = (case hdrs ''ETag'' of None \<Rightarrow> ''0''
                                    | Some v \<Rightarrow> if v \<noteq> [] then v else ''0''),
                   ts_ms = ts, fields' = flds\<rparr>,
          data = parse_rows pf flds reader []\<rparr>"
  using assms by (simp add: parse_csv_def Let_def split: option.splits)

lemma int_of_str_zero: "int_of_str ''0'' = Some 0"
  by code_simp

lemma one_entry:
  "distinct (map fst xs) \<Longrightarrow> k \<in> fst ` set xs \<Longrightarrow> length (filter (\<lambda>e. fst e = k) xs) = 1"
proof (induction xs)
  case Nil
  then show ?case by simp
next
  case (Cons x xs)
  show ?case
  proof (cases "fst x = k")
    case True
    then have "k \<notin> fst ` set xs" using Cons.prems(1) by auto
    then have "filter (\<lambda>e. fst e = k) xs = []" by (auto simp: filter_empty_conv)
    then show ?thesis using True by simp
  next
    case False
    then show ?thesis using Cons by auto
  qed
qed

text \<open>
  Claim C8. For every payload whose header row parses, and every data row of it: a cell that is
  missing (the row is shorter than the header) or whose text is not a number is 0.0 in the
  parsed row, the row and the rest of the snapshot are kept, blank rows are skipped without
  error, and the parse as a whole succeeds. The premise says that the \<open>X-Snapshot-Ts\<close>
  header, read before the payload, is absent or the text of an integer.
\<close>

theorem C8_malformed_cells_default:
  assumes "int_of_str (case hdrs ''X-Snapshot-Ts'' of None \<Rightarrow> ''0'' | Some v \<Rightarrow> v) = Some ts"
  shows "\<exists>s. parse_csv pf ((''switch_id'' # flds) # reader) hdrs = Inr s \<and>
     parse_csv pf ((''switch_id'' # flds) # filter (\<lambda>r. r \<noteq> []) reader) hdrs = Inr s \<and>
     fields' (meta s) = flds \<and>
     fst ` set (data s) = {hd row | row. row \<in> set reader \<and> row \<noteq> []} \<and>
     (\<forall>row \<in> set reader. row \<noteq> [] \<longrightarrow>
        (\<exists>vals. map_of (data s) (hd row) = Some vals \<and>
                (\<forall>name \<in> set flds. map_of vals name \<noteq> None))) \<and>
     (\<forall>pre row post idx.
        reader = pre @ row # post \<and> row \<noteq> [] \<and>
        (\<forall>q \<in> set post. q \<noteq> [] \<longrightarrow> hd q \<noteq> hd row) \<and>
        idx < length flds \<and> flds ! idx \<notin> set (drop (Suc idx) flds) \<longrightarrow>
        (\<exists>vals. map_of (data s) (hd row) = Some vals \<and>
           map_of vals (flds ! idx) =
             Some (if 1 + idx < length row
                   then (case pf (row ! (1 + idx)) of None \<Rightarrow> 0 | Some v \<Rightarrow> v)
                   else 0)))"
proof -
  let ?s = "\<lparr>meta = \<lparr>snapshot_id = (case hdrs ''ETag'' of None \<Rightarrow> ''0''
                                    | Some v \<Rightarrow> if v \<noteq> [] then v else ''0''),
                   ts_ms = ts, fields' = flds\<rparr>,
          data = parse_rows pf flds reader []\<rparr>"
  have p: "parse_csv pf ((''switch_id'' # flds) # reader) hdrs = Inr ?s"
    using assms by (rule parse_csv_ok[of hdrs ts])
  have q: "parse_csv pf ((''switch_id'' # flds) # filter (\<lambda>r. r \<noteq> []) reader) hdrs = Inr ?s"
    using parse_csv_ok[of hdrs ts pf flds "filter (\<lambda>r. r \<noteq> []) reader"] assms
    by (simp add: parse_rows_skip_blank)
  have k: "fst ` set (data ?s) = {hd row | row. row \<in> set reader \<and> row \<noteq> []}"
    by (simp add: keys_parse_rows)
  have kept: "\<forall>row \<in> set reader. row \<noteq> [] \<longrightarrow>
        (\<exists>vals. map_of (data ?s) (hd row) = Some vals \<and>
                (\<forall>name \<in> set flds. map_of vals name \<noteq> None))"
    using data_kept[of _ reader pf flds] by simp
  have cell: "\<forall>pre row post idx.
        reader = pre @ row # post \<and> row \<noteq> [] \<and>
        (\<forall>q \<in> set post. q \<noteq> [] \<longrightarrow> hd q \<noteq> hd row) \<and>
        idx < length flds \<and> flds ! idx \<notin> set (drop (Suc idx) flds) \<longrightarrow>
        (\<exists>vals. map_of (data ?s) (hd row) = Some vals \<and>
           map_of vals (flds ! idx) =
             Some (if 1 + idx < length row
                   then (case pf (row ! (1 + idx)) of None \<Rightarrow> 0 | Some v \<Rightarrow> v)
                   else 0))"
  proof (intro allI impI, elim conjE)
    fix pre row post idx
    assume a: "reader = pre @ row # post" "row \<noteq> []"
      "\<forall>q \<in> set post. q \<noteq> [] \<longrightarrow> hd q \<noteq> hd row"
      "idx < length flds" "flds ! idx \<notin> set (drop (Suc idx) flds)"
    have "map_of (data ?s) (hd row) = Some (row_vals pf row (enumerate 0 flds) [])"
      using data_last_wins[OF a(1,2,3)] by simp
    moreover have "map_of (row_vals pf row (enumerate 0 flds) []) (flds ! idx) =
        Some (if 1 + idx < length row
              then (case pf (row ! (1 + idx)) of None \<Rightarrow> 0 | Some v \<Rightarrow> v) else 0)"
      using vals_last_wins[OF a(4,5), of pf row] by (simp only: cell_value_unfold)
    ultimately show "\<exists>vals. map_of (data ?s) (hd row) = Some vals \<and>
           map_of vals (flds ! idx) =
             Some (if 1 + idx < length row
                   then (case pf (row ! (1 + idx)) of None \<Rightarrow> 0 | Some v \<Rightarrow> v)
                   else 0)" by blast
  qed
  have f: "fields' (meta ?s) = flds" by simp
  show ?thesis
    by (rule exI[of _ ?s]) (intro conjI p q f k kept cell)
qed

theorem C8_malformed_cells_default_witness:
  "\<exists>s. parse_csv demo_float payload8 Map.empty = Inr s \<and>
     fields' (meta s) = [''latency_us'', ''cpu_util_pct''] \<and>
     fst ` set (data s) = {''sw-000'', ''sw-001''} \<and>
     (\<exists>vals. map_of (data s) ''sw-000'' = Some vals \<and> map_of vals ''latency_us'' = Some 1.5) \<and>
     (\<exists>vals. map_of (data s) ''sw-000'' = Some vals \<and> map_of vals ''cpu_util_pct'' = Some 0) \<and>
     (\<exists>vals. map_of (data s) ''sw-001'' = Some vals \<and> map_of vals ''latency_us'' = Some 2) \<and>
     (\<exists>vals. map_of (data s) ''sw-001'' = Some vals \<and> map_of vals ''cpu_util_pct'' = Some 0)"
proof -
  let ?flds = "[''latency_us'', ''cpu_util_pct'']"
  let ?r0 = "[''sw-000'', ''1.5'', ''NaNtext'']"
  let ?r1 = "[''sw-001'', ''2.0'']"
  let ?reader = "[?r0, [], ?r1]"
  have ts: "int_of_str (case Map.empty ''X-Snapshot-Ts'' of None \<Rightarrow> ''0'' | Some v \<Rightarrow> v) = Some 0"
    by (simp add: int_of_str_zero)
  from C8_malformed_cells_default[of Map.empty 0 demo_float ?flds ?reader, OF ts]
  obtain s where p: "parse_csv demo_float ((''switch_id'' # ?flds) # ?reader) Map.empty = Inr s"
    and f: "fields' (meta s) = ?flds"
    and k: "fst ` set (data s) = {hd row | row. row \<in> set ?reader \<and> row \<noteq> []}"
    and cell: "\<forall>pre row post idx.
        ?reader = pre @ row # post \<and> row \<noteq> [] \<and>
        (\<forall>q \<in> set post. q \<noteq> [] \<longrightarrow> hd q \<noteq> hd row) \<and>
        idx < length ?flds \<and> ?flds ! idx \<notin> set (drop (Suc idx) ?flds) \<longrightarrow>
        (\<exists>vals. map_of (data s) (hd row) = Some vals \<and>
           map_of vals (?flds ! idx) =
             Some (if 1 + idx < length row
                   then (case demo_float (row ! (1 + idx)) of None \<Rightarrow> 0 | Some v \<Rightarrow> v)
                   else 0))"
    by (elim exE conjE)
  have k': "fst ` set (data s) = {''sw-000'', ''sw-001''}"
    unfolding k by (auto simp: conj_disj_distribL conj_disj_distribR ex_disj_distrib)
  have s0: "?reader = [] @ ?r0 # [[], ?r1]" and s1: "?reader = [?r0, []] @ ?r1 # []"
    by simp_all
  have c00: "\<exists>vals. map_of (data s) ''sw-000'' = Some vals \<and> map_of vals ''latency_us'' = Some 1.5"
    using cell[rule_format, of "[]" ?r0 "[[], ?r1]" 0, OF conjI[OF s0]]
    by (simp add: demo_float_def)
  have c01: "\<exists>vals. map_of (data s) ''sw-000'' = Some vals \<and> map_of vals ''cpu_util_pct'' = Some 0"
    using cell[rule_format, of "[]" ?r0 "[[], ?r1]" 1, OF conjI[OF s0]]
    by (simp add: demo_float_def)
  have c10: "\<exists>vals. map_of (data s) ''sw-001'' = Some vals \<and> map_of vals ''latency_us'' = Some 2"
    using cell[rule_format, of "[?r0, []]" ?r1 "[]" 0, OF conjI[OF s1]]
    by (simp add: demo_float_def)
  have c11: "\<exists>vals. map_of (data s) ''sw-001'' = Some vals \<and> map_of vals ''cpu_util_pct'' = Some 0"
    using cell[rule_format, of "[?r0, []]" ?r1 "[]" 1, OF conjI[OF s1]]
    by (simp add: demo_float_def)
  have p': "parse_csv demo_float payload8 Map.empty = Inr s"
    using p by (simp only: payload8_def)
  show ?thesis
    by (rule exI[of _ s]) (intro conjI p' f k' c00 c01 c10 c11)
qed

text \<open>
  Claim C9. If a payload contains two or more data rows with the same id, \<open>_parse_csv\<close> raises
  no error and the parsed snapshot contains exactly one entry for that id, holding the values of
  the last such row; the parsed data has one entry per distinct first cell. The premise is the
  one of C8 on the \<open>X-Snapshot-Ts\<close> header.
\<close>

theorem C9_duplicate_ids_last_wins:
  assumes "int_of_str (case hdrs ''X-Snapshot-Ts'' of None \<Rightarrow> ''0'' | Some v \<Rightarrow> v) = Some ts"
  shows "\<exists>s. parse_csv pf ((''switch_id'' # flds) # reader) hdrs = Inr s \<and>
     distinct (map fst (data s)) \<and>
     fst ` set (data s) = {hd row | row. row \<in> set reader \<and> row \<noteq> []} \<and>
     (\<forall>row \<in> set reader. row \<noteq> [] \<longrightarrow>
        length (filter (\<lambda>e. fst e = hd row) (data s)) = 1) \<and>
     (\<forall>pre row post.
        reader = pre @ row # post \<and> row \<noteq> [] \<and>
        (\<forall>q \<in> set post. q \<noteq> [] \<longrightarrow> hd q \<noteq> hd row) \<longrightarrow>
        map_of (data s) (hd row) = Some (row_vals pf row (enumerate 0 flds) []))"
proof -
  let ?s = "\<lparr>meta = \<lparr>snapshot_id = (case hdrs ''ETag'' of None \<Rightarrow> ''0''
                                    | Some v \<Rightarrow> if v \<noteq> [] then v else ''0''),
                   ts_ms = ts, fields' = flds\<rparr>,
          data = parse_rows pf flds reader []\<rparr>"
  have p: "parse_csv pf ((''switch_id'' # flds) # reader) hdrs = Inr ?s"
    using assms by (rule parse_csv_ok[of hdrs ts])
  have d: "distinct (map fst (data ?s))"
    using distinct_parse_rows[of "[]" pf flds reader] by simp
  have k: "fst ` set (data ?s) = {hd row | row. row \<in> set reader \<and> row \<noteq> []}"
    by (simp add: keys_parse_rows)
  have one: "\<forall>row \<in> set reader. row \<noteq> [] \<longrightarrow>
        length (filter (\<lambda>e. fst e = hd row) (data ?s)) = 1"
  proof (intro ballI impI)
    fix row assume "row \<in> set reader" "row \<noteq> []"
    then have "hd row \<in> fst ` set (data ?s)" unfolding k by blast
    then show "length (filter (\<lambda>e. fst e = hd row) (data ?s)) = 1"
      using d by (rule one_entry[rotated])
  qed
  have lw: "\<forall>pre row post.
        reader = pre @ row # post \<and> row \<noteq> [] \<and>
        (\<forall>q \<in> set post. q \<noteq> [] \<longrightarrow> hd q \<noteq> hd row) \<longrightarrow>
        map_of (data ?s) (hd row) = Some (row_vals pf row (enumerate 0 flds) [])"
    using data_last_wins[of reader _ _ _ pf flds] by simp
  show ?thesis
    by (rule exI[of _ ?s]) (intro conjI p d k one lw)
qed

theorem C9_duplicate_ids_last_wins_witness:
  "\<exists>s. parse_csv demo_float payload9 Map.empty = Inr s \<and>
     distinct (map fst (data s)) \<and>
     fst ` set (data s) = {''sw-000'', ''sw-001''} \<and>
     length (filter (\<lambda>e. fst e = ''sw-000'') (data s)) = 1 \<and>
     map_of (data s) ''sw-000'' = Some [(''latency_us'', 2)] \<and>
     map_of (data s) ''sw-001'' = Some [(''latency_us'', 118.44)]"
proof -
  let ?flds = "[''latency_us'']"
  let ?r0 = "[''sw-000'', ''1.5'']"
  let ?r1 = "[''sw-001'', ''118.44'']"
  let ?r2 = "[''sw-000'', ''2.0'']"
  let ?reader = "[?r0, ?r1, ?r2]"
  have ts: "int_of_str (case Map.empty ''X-Snapshot-Ts'' of None \<Rightarrow> ''0'' | Some v \<Rightarrow> v) = Some 0"
    by (simp add: int_of_str_zero)
  from C9_duplicate_ids_last_wins[of Map.empty 0 demo_float ?flds ?reader, OF ts]
  obtain s where p: "parse_csv demo_float ((''switch_id'' # ?flds) # ?reader) Map.empty = Inr s"
    and d: "distinct (map fst (data s))"
    and k: "fst ` set (data s) = {hd row | row. row \<in> set ?reader \<and> row \<noteq> []}"
    and one: "\<forall>row \<in> set ?reader. row \<noteq> [] \<longrightarrow>
        length (filter (\<lambda>e. fst e = hd row) (data s)) = 1"
    and lw: "\<forall>pre row post.
        ?reader = pre @ row # post \<and> row \<noteq> [] \<and>
        (\<forall>q \<in> set post. q \<noteq> [] \<longrightarrow> hd q \<noteq> hd row) \<longrightarrow>
        map_of (data s) (hd row) = Some (row_vals demo_float row (enumerate 0 ?flds) [])"
    by (elim exE conjE)
  have k': "fst ` set (data s) = {''sw-000'', ''sw-001''}"
    unfolding k by (auto simp: conj_disj_distribL conj_disj_distribR ex_disj_distrib)
  have o: "length (filter (\<lambda>e. fst e = ''sw-000'') (data s)) = 1"
    using one by simp
  have v0: "map_of (data s) ''sw-000'' = Some [(''latency_us'', 2)]"
    using lw[rule_format, of "[?r0, ?r1]" ?r2 "[]"]
    by (simp add: demo_float_def cell_value_unfold)
  have v1: "map_of (data s) ''sw-001'' = Some [(''latency_us'', 118.44)]"
    using lw[rule_format, of "[?r0]" ?r1 "[?r2]"]
    by (simp add: demo_float_def cell_value_unfold)
  have p': "parse_csv demo_float payload9 Map.empty = Inr s"
    using p by (simp only: payload9_def)
  show ?thesis
    by (rule exI[of _ s]) (intro conjI p' d k' o v0 v1)
qed

text \<open>
  Claim C10. \<open>_parse_csv\<close> never fails because response metadata is missing: with the
  \<open>ETag\<close> header absent or empty the parsed \<open>snapshot_id\<close> is the string \<open>0\<close>, and with the
  \<open>X-Snapshot-Ts\<close> header absent \<open>ts_ms\<close> is 0. The last part says that a response which
  parses still parses, to the same fields and data, once both headers are removed.
\<close>

theorem C10_missing_metadata:
  "(hdrs ''X-Snapshot-Ts'' = None \<longrightarrow>
      (\<exists>s. parse_csv pf ((''switch_id'' # flds) # reader) hdrs = Inr s \<and> ts_ms (meta s) = 0)) \<and>
   (\<forall>s. parse_csv pf csv_text hdrs = Inr s \<longrightarrow>
      (hdrs ''X-Snapshot-Ts'' = None \<longrightarrow> ts_ms (meta s) = 0) \<and>
      (hdrs ''ETag'' = None \<or> hdrs ''ETag'' = Some [] \<longrightarrow> snapshot_id (meta s) = ''0'') \<and>
      parse_csv pf csv_text (hdrs(''ETag'' := None, ''X-Snapshot-Ts'' := None)) =
        Inr (s\<lparr>meta := (meta s)\<lparr>snapshot_id := ''0'', ts_ms := 0\<rparr>\<rparr>))"
proof (intro conjI allI impI)
  assume a: "hdrs ''X-Snapshot-Ts'' = None"
  have "int_of_str (case hdrs ''X-Snapshot-Ts'' of None \<Rightarrow> ''0'' | Some v \<Rightarrow> v) = Some 0"
    using a by (simp add: int_of_str_zero)
  then have "parse_csv pf ((''switch_id'' # flds) # reader) hdrs =
     Inr \<lparr>meta = \<lparr>snapshot_id = (case hdrs ''ETag'' of None \<Rightarrow> ''0''
                                    | Some v \<Rightarrow> if v \<noteq> [] then v else ''0''),
                   ts_ms = 0, fields' = flds\<rparr>,
          data = parse_rows pf flds reader []\<rparr>"
    by (rule parse_csv_ok[of hdrs 0])
  then show "\<exists>s. parse_csv pf ((''switch_id'' # flds) # reader) hdrs = Inr s \<and> ts_ms (meta s) = 0"
    by simp
next
  fix s assume "parse_csv pf csv_text hdrs = Inr s" "hdrs ''X-Snapshot-Ts'' = None"
  then show "ts_ms (meta s) = 0"
    by (auto simp: parse_csv_def Let_def int_of_str_zero split: option.splits list.splits if_splits)
next
  fix s assume "parse_csv pf csv_text hdrs = Inr s" "hdrs ''ETag'' = None \<or> hdrs ''ETag'' = Some []"
  then show "snapshot_id (meta s) = ''0''"
    by (auto simp: parse_csv_def Let_def split: option.splits list.splits if_splits)
next
  fix s assume "parse_csv pf csv_text hdrs = Inr s"
  then show "parse_csv pf csv_text (hdrs(''ETag'' := None, ''X-Snapshot-Ts'' := None)) =
        Inr (s\<lparr>meta := (meta s)\<lparr>snapshot_id := ''0'', ts_ms := 0\<rparr>\<rparr>)"
    by (auto simp: parse_csv_def Let_def int_of_str_zero split: option.splits list.splits if_splits)
qed

theorem C10_missing_metadata_witness:
  "parse_csv demo_float payload9 Map.empty =
     Inr \<lparr>meta = \<lparr>snapshot_id = ''0'', ts_ms = 0, fields' = [''latency_us'']\<rparr>,
          data = [(''sw-000'', [(''latency_us'', 2)]), (''sw-001'', [(''latency_us'', 118.44)])]\<rparr> \<and>
   (\<exists>s. parse_csv demo_float payload9 [''ETag'' \<mapsto> [], ''X-Snapshot-Ts'' \<mapsto> ''1700000000123''] = Inr s \<and>
      snapshot_id (meta s) = ''0'' \<and> ts_ms (meta s) = 1700000000123)"
proof -
  let ?h = "[''ETag'' \<mapsto> [], ''X-Snapshot-Ts'' \<mapsto> ''1700000000123'']"
  have i: "int_of_str ''1700000000123'' = Some 1700000000123"
    using int_of_str_str_int[of 1700000000123]
    by (simp add: str_int_def str_nat.simps digit_char_def)
  have full: "parse_csv demo_float payload9 ?h =
     Inr \<lparr>meta = \<lparr>snapshot_id = ''0'', ts_ms = 1700000000123, fields' = [''latency_us'']\<rparr>,
          data = [(''sw-000'', [(''latency_us'', 2)]), (''sw-001'', [(''latency_us'', 118.44)])]\<rparr>"
    by (simp add: parse_csv_def payload9_def i demo_float_def cell_value_unfold enumerate_eq_zip)
  have e: "?h(''ETag'' := None, ''X-Snapshot-Ts'' := None) = Map.empty"
    by (rule ext) simp
  show ?thesis
    using C10_missing_metadata[of ?h demo_float "[''latency_us'']" "[]" payload9] full
    by (simp add: e)
qed

section \<open>The publish side: serialisation and conditional read\<close>

lemma lookup_fields_complete:
  "\<forall>k \<in> set flds. map_of vals k \<noteq> None \<Longrightarrow>
   lookup_fields vals flds = Inr (map (\<lambda>k. the (map_of vals k)) flds)"
  by (induction flds) auto

lemma lookup_fields_KeyError:
  "lookup_fields vals flds = Inl e \<Longrightarrow> e = KeyError \<and> (\<exists>k \<in> set flds. map_of vals k = None)"
  by (induction flds) (auto split: option.splits sum.splits)

lemma write_rows_complete:
  "\<forall>(sw, vals) \<in> set rows. \<forall>k \<in> set flds. map_of vals k \<noteq> None \<Longrightarrow>
   write_rows fstr flds rows = Inr (map (encode_row fstr flds) rows)"
proof (induction rows)
  case Nil
  then show ?case by simp
next
  case (Cons r rows)
  obtain sw vals where r: "r = (sw, vals)" by (cases r)
  have "\<forall>k \<in> set flds. map_of vals k \<noteq> None" using Cons.prems r by auto
  then have "lookup_fields vals flds = Inr (map (\<lambda>k. the (map_of vals k)) flds)"
    by (rule lookup_fields_complete)
  moreover have "write_rows fstr flds rows = Inr (map (encode_row fstr flds) rows)"
    using Cons by auto
  ultimately show ?case by (simp add: r encode_row_def comp_def)
qed

lemma to_csv_complete:
  assumes "rows_complete (sid, ts, flds, rows)"
  shows "to_csv fstr (sid, ts, flds, rows) =
           Inr ((''switch_id'' # flds) # map (encode_row fstr flds) rows)"
  using assms write_rows_complete[of rows flds fstr]
  by (simp add: to_csv_def rows_complete_def)

lemma counters_no_fault:
  "FAULT_500_PCT cfg = 0 \<Longrightarrow> FAULT_SLOW_MS cfg = 0 \<Longrightarrow>
   counters cfg fstr s inm r = Some (counters_read fstr s inm, r)"
  by (simp add: counters_def)

lemma counters_fault_always:
  assumes "FAULT_500_PCT cfg = 100" "random_randint 1 100 r = Some (k, r')"
  shows "counters cfg fstr s inm r = Some (Inr injected_failure, r')"
proof (cases r)
  case Nil
  then show ?thesis using assms by simp
next
  case (Cons d ds)
  then show ?thesis using assms by (cases d) (auto simp: counters_def split: if_splits)
qed

text \<open>
  Claim C3. For a published snapshot with version \<open>v\<close>, a read carrying the client token \<open>t\<close>
  answers Unchanged (status 304, no body, \<open>ETag = str(v)\<close>) exactly when \<open>t\<close> equals
  \<open>str(v)\<close>; any other token, an absent or empty one included, yields the full body of the
  current snapshot with the token \<open>str(v)\<close>; and a consumer that receives Unchanged leaves its
  store as it was.
\<close>

theorem C3_conditional_read:
  assumes "rows_complete (v, ts, flds, rows)"
  shows "(t = Some (str_int v) \<longrightarrow>
            counters_read fstr (v, ts, flds, rows) t =
              Inr \<lparr>status = 304, body = [], resp_headers = response_headers (str_int v) ts\<rparr>) \<and>
         (t \<noteq> Some (str_int v) \<longrightarrow>
            counters_read fstr (v, ts, flds, rows) t =
              Inr \<lparr>status = 200, body = (''switch_id'' # flds) # map (encode_row fstr flds) rows,
                   resp_headers = response_headers (str_int v) ts\<rparr> \<and>
            to_csv fstr (v, ts, flds, rows) =
              Inr ((''switch_id'' # flds) # map (encode_row fstr flds) rows)) \<and>
         (\<exists>r. counters_read fstr (v, ts, flds, rows) t = Inr r \<and>
              (status r = 304 \<longleftrightarrow> t = Some (str_int v)) \<and>
              resp_headers r ''ETag'' = Some (str_int v) \<and>
              (status r = 304 \<longrightarrow> store (run_cycle pf p (Returned r, ms)) = store p))"
proof -
  have ne: "str_int v \<noteq> []" by (rule str_int_nonempty)
  have csv: "to_csv fstr (v, ts, flds, rows) =
      Inr ((''switch_id'' # flds) # map (encode_row fstr flds) rows)"
    using assms by (rule to_csv_complete)
  have a: "t = Some (str_int v) \<Longrightarrow>
      counters_read fstr (v, ts, flds, rows) t =
        Inr \<lparr>status = 304, body = [], resp_headers = response_headers (str_int v) ts\<rparr>"
    using ne by (simp add: counters_read_def)
  have b: "t \<noteq> Some (str_int v) \<Longrightarrow>
      counters_read fstr (v, ts, flds, rows) t =
        Inr \<lparr>status = 200, body = (''switch_id'' # flds) # map (encode_row fstr flds) rows,
             resp_headers = response_headers (str_int v) ts\<rparr>"
    using csv by (simp add: counters_read_def)
  have e: "response_headers (str_int v) ts ''ETag'' = Some (str_int v)"
    by (simp add: response_headers_def)
  have st: "\<And>r. status r = 304 \<Longrightarrow> store (run_cycle pf p (Returned r, ms)) = store p"
    by (simp add: run_cycle_def try_block_def)
  show ?thesis
  proof (cases "t = Some (str_int v)")
    case True
    then show ?thesis using a e st by simp
  next
    case False
    then show ?thesis using b csv e by simp
  qed
qed

lemma snap7_complete: "rows_complete snap7"
  by (simp add: rows_complete_def snap7_def map_of_eq_None_iff del: map_of.simps)

lemma str_int_7: "str_int 7 = ''7''"
  by (simp add: str_int_def str_nat.simps digit_char_def)

lemma encode_snap7:
  "(''switch_id'' # [''latency_us'', ''cpu_util_pct'']) #
     map (encode_row demo_str [''latency_us'', ''cpu_util_pct''])
       [(''sw-000'', [(''latency_us'', 1.5), (''cpu_util_pct'', 2)]),
        (''sw-001'', [(''latency_us'', 118.44), (''cpu_util_pct'', 1.5)])] = csv7"
  by (simp add: encode_row_def demo_str_def csv7_def)

theorem C3_conditional_read_witness:
  "rows_complete snap7 \<and>
   counters_read demo_str snap7 (Some ''7'') =
     Inr \<lparr>status = 304, body = [], resp_headers = response_headers ''7'' 1700000000123\<rparr> \<and>
   counters_read demo_str snap7 (Some ''6'') =
     Inr \<lparr>status = 200, body = csv7, resp_headers = response_headers ''7'' 1700000000123\<rparr> \<and>
   counters_read demo_str snap7 None =
     Inr \<lparr>status = 200, body = csv7, resp_headers = response_headers ''7'' 1700000000123\<rparr> \<and>
   counters_read demo_str snap7 (Some []) =
     Inr \<lparr>status = 200, body = csv7, resp_headers = response_headers ''7'' 1700000000123\<rparr> \<and>
   response_headers ''7'' 1700000000123 ''ETag'' = Some ''7'' \<and>
   store (run_cycle demo_float p0 (not_modified7, 3)) = store p0"
proof -
  let ?flds = "[''latency_us'', ''cpu_util_pct'']"
  let ?rows = "[(''sw-000'', [(''latency_us'', 1.5), (''cpu_util_pct'', 2)]),
        (''sw-001'', [(''latency_us'', 118.44), (''cpu_util_pct'', 1.5)])]"
  have c: "rows_complete (7, 1700000000123, ?flds, ?rows)"
    using snap7_complete by (simp only: snap7_def)
  note th = C3_conditional_read[OF c, of _ demo_str, unfolded str_int_7 encode_snap7, folded snap7_def]
  have a: "counters_read demo_str snap7 (Some ''7'') =
     Inr \<lparr>status = 304, body = [], resp_headers = response_headers ''7'' 1700000000123\<rparr>"
    using th[of "Some ''7''"] by simp
  have b: "counters_read demo_str snap7 (Some ''6'') =
     Inr \<lparr>status = 200, body = csv7, resp_headers = response_headers ''7'' 1700000000123\<rparr>"
    using th[of "Some ''6''"] by simp
  have n: "counters_read demo_str snap7 None =
     Inr \<lparr>status = 200, body = csv7, resp_headers = response_headers ''7'' 1700000000123\<rparr>"
    using th[of None] by simp
  have e: "counters_read demo_str snap7 (Some []) =
     Inr \<lparr>status = 200, body = csv7, resp_headers = response_headers ''7'' 1700000000123\<rparr>"
    using th[of "Some []"] by simp
  have h: "response_headers ''7'' 1700000000123 ''ETag'' = Some ''7''"
    using th[of "Some ''7''"] a by simp
  have s: "store (run_cycle demo_float p0 (not_modified7, 3)) = store p0"
    using th[of "Some ''7''" demo_float p0 3] a by (simp add: not_modified7_def)
  show ?thesis
    by (intro conjI snap7_complete a b n e h s)
qed

section \<open>Round trip through the wire format\<close>

lemma last_occurrence:
  assumes "k \<in> set xs"
  shows "\<exists>i < length xs. xs ! i = k \<and> k \<notin> set (drop (Suc i) xs)"
proof -
  from split_list_last[OF assms] obtain ys zs where x: "xs = ys @ k # zs" "k \<notin> set zs"
    by blast
  have "length ys < length xs" "xs ! length ys = k" "drop (Suc (length ys)) xs = zs"
    using x(1) by simp_all
  then show ?thesis using x(2) by metis
qed

lemma hd_encode_row: "hd (encode_row fstr flds e) = fst e" "encode_row fstr flds e \<noteq> []"
  by (simp_all add: encode_row_def)

lemma encoded_cell:
  assumes "idx < length flds"
  shows "cell_value pf (encode_row fstr flds e) idx =
           (case pf (fstr (the (map_of (snd e) (flds ! idx)))) of None \<Rightarrow> 0 | Some v \<Rightarrow> v)"
  using assms by (simp add: cell_value_unfold encode_row_def)

lemma round_trip_row:
  assumes "(sw, vals) \<in> set rows" "distinct (map fst rows)"
  shows "map_of (parse_rows pf flds (map (encode_row fstr flds) rows) []) sw =
           Some (row_vals pf (encode_row fstr flds (sw, vals)) (enumerate 0 flds) [])"
proof -
  from split_list[OF assms(1)] obtain pre post where r: "rows = pre @ (sw, vals) # post"
    by blast
  have "sw \<notin> fst ` set post" using assms(2) r by auto
  then have later: "\<forall>q \<in> set (map (encode_row fstr flds) post).
      q \<noteq> [] \<longrightarrow> hd q \<noteq> hd (encode_row fstr flds (sw, vals))"
    by (auto simp: hd_encode_row)
  have sp: "map (encode_row fstr flds) rows =
      map (encode_row fstr flds) pre @ encode_row fstr flds (sw, vals) #
      map (encode_row fstr flds) post"
    using r by simp
  from data_last_wins[OF sp hd_encode_row(2) later, of pf flds]
  show ?thesis by (simp add: hd_encode_row)
qed

lemma round_trip_value:
  assumes "k \<in> set flds" "map_of vals k = Some x" "pf (fstr x) = Some x"
  shows "map_of (row_vals pf (encode_row fstr flds (sw, vals)) (enumerate 0 flds) []) k = Some x"
proof -
  from last_occurrence[OF assms(1)] obtain idx where
    i: "idx < length flds" "flds ! idx = k" "k \<notin> set (drop (Suc idx) flds)" by blast
  have "flds ! idx \<notin> set (drop (Suc idx) flds)" using i by simp
  from vals_last_wins[OF i(1) this, of pf "encode_row fstr flds (sw, vals)"]
  show ?thesis using i assms(2,3) by (simp add: encoded_cell)
qed

lemma keys_encoded:
  "{hd r | r. r \<in> set (map (encode_row fstr flds) rows) \<and> r \<noteq> []} = fst ` set rows"
proof (intro equalityI subsetI)
  fix a assume "a \<in> {hd r | r. r \<in> set (map (encode_row fstr flds) rows) \<and> r \<noteq> []}"
  then obtain e where "e \<in> set rows" "a = hd (encode_row fstr flds e)" by auto
  then show "a \<in> fst ` set rows" by (simp add: hd_encode_row)
next
  fix a assume "a \<in> fst ` set rows"
  then obtain e where e: "e \<in> set rows" "a = fst e" by auto
  have "encode_row fstr flds e \<in> set (map (encode_row fstr flds) rows)" using e(1) by simp
  moreover have "a = hd (encode_row fstr flds e)" using e(2) by (simp add: hd_encode_row)
  ultimately show "a \<in> {hd r | r. r \<in> set (map (encode_row fstr flds) rows) \<and> r \<noteq> []}"
    using hd_encode_row(2) by blast
qed

text \<open>
  Claim C2. For every snapshot whose rows each hold a number for every field, serialising it
  with \<open>_to_csv\<close> and parsing the result with \<open>_parse_csv\<close>, under the \<open>ETag\<close> and
  \<open>X-Snapshot-Ts\<close> headers that \<open>counters\<close> sends with it, yields a snapshot with the same
  \<open>fields\<close> list in the same order, the same set of ids and, for every id and field, the
  original value (here exactly, hence within the tolerance of two decimal places). The
  premises say that the ids are the keys of a dictionary and that \<open>float\<close> reads back what
  \<open>str\<close> writes for the stored values.
\<close>

theorem C2_round_trip:
  assumes "rows_complete (sid, ts, flds, rows)"
    and "distinct (map fst rows)"
    and "\<forall>(sw, vals) \<in> set rows. \<forall>k \<in> set flds. \<forall>x. map_of vals k = Some x \<longrightarrow> pf (fstr x) = Some x"
  shows "\<exists>resp snap.
     counters_read fstr (sid, ts, flds, rows) None = Inr resp \<and>
     to_csv fstr (sid, ts, flds, rows) = Inr (body resp) \<and>
     parse_csv pf (body resp) (resp_headers resp) = Inr snap \<and>
     fields' (meta snap) = flds \<and>
     snapshot_id (meta snap) = str_int sid \<and> ts_ms (meta snap) = ts \<and>
     fst ` set (data snap) = fst ` set rows \<and>
     (\<forall>(sw, vals) \<in> set rows. \<forall>k \<in> set flds.
        \<exists>vals' x. map_of (data snap) sw = Some vals' \<and>
          map_of vals k = Some x \<and> map_of vals' k = Some x \<and> \<bar>x - x\<bar> \<le> 0.005)"
proof -
  let ?csv = "(''switch_id'' # flds) # map (encode_row fstr flds) rows"
  let ?h = "response_headers (str_int sid) ts"
  let ?resp = "\<lparr>status = 200, body = ?csv, resp_headers = ?h\<rparr>"
  let ?snap = "\<lparr>meta = \<lparr>snapshot_id = str_int sid, ts_ms = ts, fields' = flds\<rparr>,
          data = parse_rows pf flds (map (encode_row fstr flds) rows) []\<rparr>"
  have csv: "to_csv fstr (sid, ts, flds, rows) = Inr ?csv"
    using assms(1) by (rule to_csv_complete)
  then have rd: "counters_read fstr (sid, ts, flds, rows) None = Inr ?resp"
    by (simp add: counters_read_def)
  have "int_of_str (case ?h ''X-Snapshot-Ts'' of None \<Rightarrow> ''0'' | Some v \<Rightarrow> v) = Some ts"
    by (simp add: response_headers_def int_of_str_str_int)
  from parse_csv_ok[of ?h ts pf flds "map (encode_row fstr flds) rows", OF this]
  have ps: "parse_csv pf ?csv ?h = Inr ?snap"
    using str_int_nonempty[of sid] by (simp add: response_headers_def)
  have keys: "fst ` set (data ?snap) = fst ` set rows"
    by (simp add: keys_parse_rows keys_encoded del: set_map)
  have vals: "\<forall>(sw, vals) \<in> set rows. \<forall>k \<in> set flds.
        \<exists>vals' x. map_of (data ?snap) sw = Some vals' \<and>
          map_of vals k = Some x \<and> map_of vals' k = Some x \<and> \<bar>x - x\<bar> \<le> 0.005"
  proof (intro ballI, clarify)
    fix sw vals k assume m: "(sw, vals) \<in> set rows" "k \<in> set flds"
    then obtain x where x: "map_of vals k = Some x"
      using assms(1) by (fastforce simp: rows_complete_def)
    then have f: "pf (fstr x) = Some x" using assms(3) m by blast
    have "map_of (data ?snap) sw =
        Some (row_vals pf (encode_row fstr flds (sw, vals)) (enumerate 0 flds) [])"
      using round_trip_row[OF m(1) assms(2)] by simp
    moreover have "map_of (row_vals pf (encode_row fstr flds (sw, vals)) (enumerate 0 flds) []) k
        = Some x"
      using m(2) x f by (rule round_trip_value)
    ultimately show "\<exists>vals' x. map_of (data ?snap) sw = Some vals' \<and>
          map_of vals k = Some x \<and> map_of vals' k = Some x \<and> \<bar>x - x\<bar> \<le> 0.005"
      using x by simp
  qed
  have b: "to_csv fstr (sid, ts, flds, rows) = Inr (body ?resp)" using csv by simp
  have p: "parse_csv pf (body ?resp) (resp_headers ?resp) = Inr ?snap" using ps by simp
  have m1: "fields' (meta ?snap) = flds" and m2: "snapshot_id (meta ?snap) = str_int sid"
    and m3: "ts_ms (meta ?snap) = ts" by simp_all
  show ?thesis
    by (rule exI[of _ ?resp], rule exI[of _ ?snap]) (intro conjI rd b p m1 m2 m3 keys vals)
qed

lemma to_csv_snap7: "to_csv demo_str snap7 = Inr csv7"
  using to_csv_complete[of 7 1700000000123 "[''latency_us'', ''cpu_util_pct'']" _ demo_str]
    snap7_complete encode_snap7
  by (simp add: snap7_def)

lemma demo_float_str:
  "x = 1.5 \<or> x = 2 \<or> x = 118.44 \<Longrightarrow> demo_float (demo_str x) = Some x"
  by (auto simp: demo_float_def demo_str_def)

theorem C2_round_trip_witness:
  "rows_complete snap7 \<and> to_csv demo_str snap7 = Inr csv7 \<and>
   (\<exists>snap. parse_csv demo_float csv7 (response_headers ''7'' 1700000000123) = Inr snap \<and>
      fields' (meta snap) = [''latency_us'', ''cpu_util_pct''] \<and>
      snapshot_id (meta snap) = ''7'' \<and> ts_ms (meta snap) = 1700000000123 \<and>
      fst ` set (data snap) = {''sw-000'', ''sw-001''} \<and>
      (\<exists>vals'. map_of (data snap) ''sw-001'' = Some vals' \<and>
         map_of vals' ''latency_us'' = Some 118.44))"
proof -
  let ?flds = "[''latency_us'', ''cpu_util_pct'']"
  let ?rows = "[(''sw-000'', [(''latency_us'', 1.5::real), (''cpu_util_pct'', 2)]),
        (''sw-001'', [(''latency_us'', 118.44), (''cpu_util_pct'', 1.5)])]"
  have c: "rows_complete (7, 1700000000123, ?flds, ?rows)"
    using snap7_complete by (simp only: snap7_def)
  have d: "distinct (map fst ?rows)" by simp
  have f: "\<forall>(sw, vals) \<in> set ?rows. \<forall>k \<in> set ?flds. \<forall>x.
      map_of vals k = Some x \<longrightarrow> demo_float (demo_str x) = Some x"
    by (auto intro: demo_float_str)
  from C2_round_trip[OF c d f]
  obtain resp snap where
    rd: "counters_read demo_str (7, 1700000000123, ?flds, ?rows) None = Inr resp"
    and b: "to_csv demo_str (7, 1700000000123, ?flds, ?rows) = Inr (body resp)"
    and p: "parse_csv demo_float (body resp) (resp_headers resp) = Inr snap"
    and m1: "fields' (meta snap) = ?flds"
    and m2: "snapshot_id (meta snap) = str_int 7" and m3: "ts_ms (meta snap) = 1700000000123"
    and k: "fst ` set (data snap) = fst ` set ?rows"
    and v: "\<forall>(sw, vals) \<in> set ?rows. \<forall>k \<in> set ?flds.
        \<exists>vals' x. map_of (data snap) sw = Some vals' \<and>
          map_of vals k = Some x \<and> map_of vals' k = Some x \<and> \<bar>x - x\<bar> \<le> 0.005"
    by (elim exE conjE)
  have bd: "body resp = csv7" using b to_csv_snap7 by (simp add: snap7_def)
  have hd: "resp_headers resp = response_headers ''7'' 1700000000123"
    using rd to_csv_snap7 by (auto simp: counters_read_def snap7_def str_int_7)
  have p': "parse_csv demo_float csv7 (response_headers ''7'' 1700000000123) = Inr snap"
    using p bd hd by simp
  have m2': "snapshot_id (meta snap) = ''7''" using m2 by (simp add: str_int_7)
  have k': "fst ` set (data snap) = {''sw-000'', ''sw-001''}" using k by simp
  have mem: "(''sw-001'', [(''latency_us'', 118.44), (''cpu_util_pct'', 1.5)]) \<in> set ?rows"
    by simp
  have "\<forall>k \<in> set ?flds. \<exists>vals' x. map_of (data snap) ''sw-001'' = Some vals' \<and>
      map_of [(''latency_us'', 118.44), (''cpu_util_pct'', 1.5)] k = Some x \<and>
      map_of vals' k = Some x \<and> \<bar>x - x\<bar> \<le> 0.005"
    using bspec[OF v mem] by (simp only: split_conv)
  then obtain vals' x where w: "map_of (data snap) ''sw-001'' = Some vals'"
    "map_of [(''latency_us'', 118.44), (''cpu_util_pct'', 1.5)] ''latency_us'' = Some x"
    "map_of vals' ''latency_us'' = Some x"
    by fastforce
  have "x = 118.44" using w(2) by simp
  then have v': "\<exists>vals'. map_of (data snap) ''sw-001'' = Some vals' \<and>
         map_of vals' ''latency_us'' = Some 118.44"
    using w(1,3) by blast
  have inner: "\<exists>snap. parse_csv demo_float csv7 (response_headers ''7'' 1700000000123) = Inr snap \<and>
      fields' (meta snap) = ?flds \<and>
      snapshot_id (meta snap) = ''7'' \<and> ts_ms (meta snap) = 1700000000123 \<and>
      fst ` set (data snap) = {''sw-000'', ''sw-001''} \<and>
      (\<exists>vals'. map_of (data snap) ''sw-001'' = Some vals' \<and>
         map_of vals' ''latency_us'' = Some 118.44)"
    by (rule exI[of _ snap]) (intro conjI p' m1 m2' m3 k' v')
  show ?thesis
    by (intro conjI snap7_complete to_csv_snap7 inner)
qed

section \<open>The generator\<close>

lemma py_round2_form: "\<exists>n :: int. py_round2 x = of_int n / 100 \<and> (n = \<lfloor>x * 100\<rfloor> \<or> n = \<lfloor>x * 100\<rfloor> + 1 \<and> of_int \<lfloor>x * 100\<rfloor> < x * 100)"
  by (auto simp: py_round2_def Let_def)

lemma py_round2_two_decimals: "two_decimals (py_round2 x)"
  using py_round2_form[of x] by (auto simp: two_decimals_def)

lemma py_round2_lower:
  assumes "of_int a / 100 \<le> x"
  shows "of_int a / 100 \<le> py_round2 x"
proof -
  from py_round2_form[of x] obtain n :: int where n1: "py_round2 x = of_int n / 100"
    and c: "n = \<lfloor>x * 100\<rfloor> \<or> n = \<lfloor>x * 100\<rfloor> + 1 \<and> of_int \<lfloor>x * 100\<rfloor> < x * 100"
    by blast
  have n2: "\<lfloor>x * 100\<rfloor> \<le> n" using c by auto
  note n = n1 n2
  have "of_int a \<le> x * 100" using assms by (simp add: field_simps)
  then have "a \<le> \<lfloor>x * 100\<rfloor>" by (simp add: le_floor_iff)
  then have "a \<le> n" using n(2) by simp
  then show ?thesis by (simp add: n(1) divide_right_mono)
qed

lemma py_round2_upper:
  assumes "x \<le> of_int a / 100"
  shows "py_round2 x \<le> of_int a / 100"
proof -
  have le: "x * 100 \<le> of_int a" using assms by (simp add: field_simps)
  then have f: "\<lfloor>x * 100\<rfloor> \<le> a" by (simp add: floor_le_iff)
  from py_round2_form[of x] obtain n :: int where n: "py_round2 x = of_int n / 100"
    "n = \<lfloor>x * 100\<rfloor> \<or> n = \<lfloor>x * 100\<rfloor> + 1 \<and> of_int \<lfloor>x * 100\<rfloor> < x * 100"
    by blast
  have "n \<le> a"
  proof (cases "n = \<lfloor>x * 100\<rfloor>")
    case True
    then show ?thesis using f by simp
  next
    case False
    then have s: "n = \<lfloor>x * 100\<rfloor> + 1" "of_int \<lfloor>x * 100\<rfloor> < x * 100" using n(2) by auto
    have "\<lfloor>x * 100\<rfloor> \<noteq> a"
    proof
      assume "\<lfloor>x * 100\<rfloor> = a"
      then show False using s(2) le by simp
    qed
    then show ?thesis using f s(1) by simp
  qed
  then show ?thesis by (simp add: n(1) divide_right_mono)
qed

lemma py_round2_whole: "py_round2 (of_int k) = of_int k"
  by (simp add: py_round2_def Let_def)

lemma random_uniform_range: "random_uniform a b r = Some (x, r') \<Longrightarrow> a \<le> x \<and> x \<le> b"
  by (induction a b r rule: random_uniform.induct) (auto split: if_splits)

lemma random_randint_range: "random_randint a b r = Some (i, r') \<Longrightarrow> a \<le> i \<and> i \<le> b"
  by (induction a b r rule: random_randint.induct) (auto split: if_splits)

lemma random_random_range: "random_random r = Some (u, r') \<Longrightarrow> 0 \<le> u \<and> u < 1"
  by (induction r rule: random_random.induct) (auto split: if_splits)

lemma poisson_small_nonneg: "poisson_small lam r = Some (k, r') \<Longrightarrow> 0 \<le> k"
  by (auto simp: poisson_small_def split: option.splits)

lemma clip_range: "lo \<le> hi \<Longrightarrow> lo \<le> clip g lo hi \<and> clip g lo hi \<le> hi"
  by (auto simp: clip_def)

lemma spike_or_clip:
  assumes "(if c then random_uniform a b r
            else do { (g, r') \<leftarrow> random_gauss mu sigma r; Some (clip g lo hi, r') }) = Some (x, r2)"
    and "lo \<le> a" "b \<le> hi" "lo \<le> hi"
  shows "lo \<le> x \<and> x \<le> hi"
proof (cases c)
  case True
  then have "a \<le> x \<and> x \<le> b" using assms(1) random_uniform_range by simp
  then show ?thesis using assms(2,3) by simp
next
  case False
  then obtain g r' where "x = clip g lo hi" using assms(1)
    by (auto split: Option.bind_splits)
  then show ?thesis using clip_range[OF assms(4)] by simp
qed

lemma lat_range:
  assumes "(if c then random_uniform 50 150 r
            else do { (g, r') \<leftarrow> random_gauss 10 2 r; Some (max 1 g, r') }) = Some (x, r2)"
  shows "1 \<le> x"
proof (cases c)
  case True
  then have "50 \<le> x" using assms random_uniform_range[of 50 150 r x r2] by simp
  then show ?thesis by simp
next
  case False
  then show ?thesis using assms by (auto split: Option.bind_splits)
qed

lemma pkt_range:
  assumes "(if c then random_randint 5 30 r else poisson_small lam r) = Some (k, r2)"
  shows "0 \<le> k"
proof (cases c)
  case True
  then have "5 \<le> k" using assms random_randint_range[of 5 30 r k r2] by simp
  then show ?thesis by simp
next
  case False
  then show ?thesis using assms poisson_small_nonneg by simp
qed

lemma drops_range:
  assumes "(if c then random_uniform 100 1000 r
            else do { (k, r') \<leftarrow> poisson_small lam r; Some (real_of_int k, r') }) = Some (x, r2)"
  shows "(\<exists>k :: int. 0 \<le> k \<and> x = of_int k) \<or> 100 \<le> x \<and> x \<le> 1000"
proof (cases c)
  case True
  then show ?thesis using assms random_uniform_range[of 100 1000 r x r2] by simp
next
  case False
  then obtain k r' where "poisson_small lam r = Some (k, r')" "x = of_int k"
    using assms by (auto split: Option.bind_splits)
  then show ?thesis using poisson_small_nonneg by blast
qed

lemma bind_pairE:
  assumes "(m \<bind> (\<lambda>(x, r). f x r)) = Some y"
  obtains x r where "m = Some (x, r)" "f x r = Some y"
  using assms by (auto simp: bind_eq_Some_conv)

lemma gen_row_steps:
  fixes lat cpu buf drops g_bw g_mem g_temp :: real and pkt_errs :: int
  assumes lat: "(if c_lat then random_uniform 50 150 r2
           else do { (g, r) \<leftarrow> random_gauss 10 2 r2; Some (max 1 g, r) }) = Some (lat, r3)"
    and pkt: "(if c_pkt then random_randint 5 30 r4 else poisson_small 0.6 r4)
                = Some (pkt_errs, r5)"
    and cpu: "(if c_cpu then random_uniform 80 100 r6
           else do { (g, r) \<leftarrow> random_gauss 35 10 r6; Some (clip g 0 100, r) }) = Some (cpu, r7)"
    and buf: "(if c_buf then random_uniform 70 100 r9
           else do { (g, r) \<leftarrow> random_gauss 30 15 r9; Some (clip g 0 100, r) }) = Some (buf, r10)"
    and drops: "(if c_drops then random_uniform 100 1000 r11
           else do { (k, r) \<leftarrow> poisson_small (1 + (buf / 100) * 0.5) r11;
                     Some (real_of_int k, r) }) = Some (drops, r12)"
    and vals: "Some ([(''bandwidth_gbps'', py_round2 (max 0 g_bw)), (''latency_us'', py_round2 lat),
             (''packet_errors'', real_of_int pkt_errs), (''cpu_util_pct'', py_round2 cpu),
             (''mem_util_pct'', py_round2 (clip g_mem 0 100)),
             (''buffer_occupancy_pct'', py_round2 buf),
             (''egress_drops_per_s'', py_round2 drops),
             (''temperature_c'', py_round2 (clip (g_temp + 0.06 * cpu) 30 90))], r13) =
             Some (vals, r')"
  shows "\<exists>bw lat (pe :: int) cpu mem buf drops temp.
     vals = [(''bandwidth_gbps'', py_round2 bw), (''latency_us'', py_round2 lat),
             (''packet_errors'', real_of_int pe), (''cpu_util_pct'', py_round2 cpu),
             (''mem_util_pct'', py_round2 mem), (''buffer_occupancy_pct'', py_round2 buf),
             (''egress_drops_per_s'', py_round2 drops), (''temperature_c'', py_round2 temp)] \<and>
     0 \<le> bw \<and> 1 \<le> lat \<and> 0 \<le> pe \<and> 0 \<le> cpu \<and> cpu \<le> 100 \<and> 0 \<le> mem \<and> mem \<le> 100 \<and>
     0 \<le> buf \<and> buf \<le> 100 \<and>
     ((\<exists>k :: int. 0 \<le> k \<and> drops = of_int k) \<or> 100 \<le> drops \<and> drops \<le> 1000) \<and>
     30 \<le> temp \<and> temp \<le> 90"
proof -
  have "0 \<le> max 0 g_bw" by simp
  moreover have "1 \<le> lat" using lat by (rule lat_range)
  moreover have "0 \<le> pkt_errs" using pkt by (rule pkt_range)
  moreover have "0 \<le> cpu \<and> cpu \<le> 100" using cpu by (rule spike_or_clip) simp_all
  moreover have "0 \<le> clip g_mem 0 100 \<and> clip g_mem 0 100 \<le> 100" by (rule clip_range) simp
  moreover have "0 \<le> buf \<and> buf \<le> 100" using buf by (rule spike_or_clip) simp_all
  moreover have "(\<exists>k :: int. 0 \<le> k \<and> drops = of_int k) \<or> 100 \<le> drops \<and> drops \<le> 1000"
    using drops by (rule drops_range)
  moreover have "30 \<le> clip (g_temp + 0.06 * cpu) 30 90 \<and> clip (g_temp + 0.06 * cpu) 30 90 \<le> 90"
    by (rule clip_range) simp
  moreover have "vals = [(''bandwidth_gbps'', py_round2 (max 0 g_bw)), (''latency_us'', py_round2 lat),
             (''packet_errors'', real_of_int pkt_errs), (''cpu_util_pct'', py_round2 cpu),
             (''mem_util_pct'', py_round2 (clip g_mem 0 100)),
             (''buffer_occupancy_pct'', py_round2 buf),
             (''egress_drops_per_s'', py_round2 drops),
             (''temperature_c'', py_round2 (clip (g_temp + 0.06 * cpu) 30 90))]"
    using vals by simp
  ultimately show ?thesis by blast
qed

lemma gen_row_raw:
  assumes "gen_row r0 = Some (vals, r')"
  shows "\<exists>bw lat (pe :: int) cpu mem buf drops temp.
     vals = [(''bandwidth_gbps'', py_round2 bw), (''latency_us'', py_round2 lat),
             (''packet_errors'', real_of_int pe), (''cpu_util_pct'', py_round2 cpu),
             (''mem_util_pct'', py_round2 mem), (''buffer_occupancy_pct'', py_round2 buf),
             (''egress_drops_per_s'', py_round2 drops), (''temperature_c'', py_round2 temp)] \<and>
     0 \<le> bw \<and> 1 \<le> lat \<and> 0 \<le> pe \<and> 0 \<le> cpu \<and> cpu \<le> 100 \<and> 0 \<le> mem \<and> mem \<le> 100 \<and>
     0 \<le> buf \<and> buf \<le> 100 \<and>
     ((\<exists>k :: int. 0 \<le> k \<and> drops = of_int k) \<or> 100 \<le> drops \<and> drops \<le> 1000) \<and>
     30 \<le> temp \<and> temp \<le> 90"
  using assms unfolding gen_row_def Let_def
  by (elim bind_pairE) (rule gen_row_steps; assumption)

lemma set_update_subset: "e \<in> set (AList.update k v al) \<Longrightarrow> e = (k, v) \<or> e \<in> set al"
  by (induction al) (auto split: if_splits)

lemma update_nonempty: "AList.update k v al \<noteq> []"
  by (cases al) auto

lemma gen_rows_ConsE:
  assumes "gen_rows (i # is) rows ds = Some (rows', ds')"
  obtains vals d1 where "gen_row ds = Some (vals, d1)"
    "gen_rows is (AList.update (fmt_id i) vals rows) d1 = Some (rows', ds')"
proof (cases "gen_row ds")
  case None
  then show ?thesis using assms by simp
next
  case (Some a)
  obtain vals d1 where a: "a = (vals, d1)" by (cases a)
  show ?thesis using assms Some a that by simp
qed

lemma gen_rows_all:
  assumes "gen_rows is rows ds = Some (rows', ds')"
    and "\<forall>(sw, vals) \<in> set rows. P vals"
    and "\<And>r vals r'. gen_row r = Some (vals, r') \<Longrightarrow> P vals"
  shows "\<forall>(sw, vals) \<in> set rows'. P vals"
  using assms(1,2)
proof (induction "is" arbitrary: rows ds)
  case Nil
  then show ?case by simp
next
  case (Cons i "is")
  from Cons.prems(1) obtain vals d1 where g: "gen_row ds = Some (vals, d1)"
    and rest: "gen_rows is (AList.update (fmt_id i) vals rows) d1 = Some (rows', ds')"
    by (rule gen_rows_ConsE)
  have pv: "P vals" using g by (rule assms(3))
  have "\<forall>(sw, vals) \<in> set (AList.update (fmt_id i) vals rows). P vals"
  proof (intro ballI, clarify)
    fix sw v assume "(sw, v) \<in> set (AList.update (fmt_id i) vals rows)"
    then have "(sw, v) = (fmt_id i, vals) \<or> (sw, v) \<in> set rows" by (rule set_update_subset)
    then show "P v" using pv Cons.prems(2) by blast
  qed
  with rest show ?case by (rule Cons.IH)
qed

lemma gen_rows_nonempty:
  "gen_rows is rows ds = Some (rows', ds') \<Longrightarrow> is \<noteq> [] \<or> rows \<noteq> [] \<Longrightarrow> rows' \<noteq> []"
proof (induction "is" arbitrary: rows ds)
  case Nil
  then show ?case by simp
next
  case (Cons i "is")
  from Cons.prems(1) obtain vals d1 where
    rest: "gen_rows is (AList.update (fmt_id i) vals rows) d1 = Some (rows', ds')"
    by (rule gen_rows_ConsE)
  have "AList.update (fmt_id i) vals rows \<noteq> []" by (rule update_nonempty)
  then show ?case using Cons.IH[OF rest] by simp
qed

lemma row_in_clipI:
  assumes "0 \<le> bw" "1 \<le> lat" "0 \<le> pe" "0 \<le> cpu" "cpu \<le> 100" "0 \<le> mem" "mem \<le> 100"
    "0 \<le> buf" "buf \<le> 100" "0 \<le> drops" "30 \<le> temp" "temp \<le> 90"
  shows "row_in_clip [(''bandwidth_gbps'', bw), (''latency_us'', lat),
             (''packet_errors'', pe), (''cpu_util_pct'', cpu),
             (''mem_util_pct'', mem), (''buffer_occupancy_pct'', buf),
             (''egress_drops_per_s'', drops), (''temperature_c'', temp)]"
  unfolding row_in_clip_def
  apply (rule exI[of _ bw], rule exI[of _ lat], rule exI[of _ pe], rule exI[of _ cpu])
  apply (rule exI[of _ mem], rule exI[of _ buf], rule exI[of _ drops], rule exI[of _ temp])
  using assms apply simp
  done

lemma row_storageI:
  assumes "whole pe" "two_decimals bw" "two_decimals lat" "two_decimals cpu" "two_decimals mem"
    "two_decimals buf" "two_decimals drops" "two_decimals temp"
    "whole drops \<or> 100 \<le> drops \<and> drops \<le> 1000"
  shows "row_storage [(''bandwidth_gbps'', bw), (''latency_us'', lat),
             (''packet_errors'', pe), (''cpu_util_pct'', cpu),
             (''mem_util_pct'', mem), (''buffer_occupancy_pct'', buf),
             (''egress_drops_per_s'', drops), (''temperature_c'', temp)]"
  unfolding row_storage_def
  apply (rule exI[of _ bw], rule exI[of _ lat], rule exI[of _ pe], rule exI[of _ cpu])
  apply (rule exI[of _ mem], rule exI[of _ buf], rule exI[of _ drops], rule exI[of _ temp])
  using assms apply (intro conjI refl)
          apply assumption+
  done

lemma gen_row_in_clip:
  assumes "gen_row r0 = Some (vals, r')"
  shows "row_in_clip vals"
proof -
  from gen_row_raw[OF assms] obtain bw lat pe cpu mem buf drops temp where
    v: "vals = [(''bandwidth_gbps'', py_round2 bw), (''latency_us'', py_round2 lat),
             (''packet_errors'', real_of_int pe), (''cpu_util_pct'', py_round2 cpu),
             (''mem_util_pct'', py_round2 mem), (''buffer_occupancy_pct'', py_round2 buf),
             (''egress_drops_per_s'', py_round2 drops), (''temperature_c'', py_round2 temp)]"
    and b: "0 \<le> bw" "1 \<le> lat" "0 \<le> pe" "0 \<le> cpu" "cpu \<le> 100" "0 \<le> mem" "mem \<le> 100"
      "0 \<le> buf" "buf \<le> 100"
      "(\<exists>k :: int. 0 \<le> k \<and> drops = of_int k) \<or> 100 \<le> drops \<and> drops \<le> 1000"
      "30 \<le> temp" "temp \<le> 90"
    by (elim exE conjE)
  have d: "0 \<le> drops" using b(10) by auto
  have lo0: "\<And>x. 0 \<le> x \<Longrightarrow> 0 \<le> py_round2 x"
    using py_round2_lower[of 0] by simp
  have hi100: "\<And>x. x \<le> 100 \<Longrightarrow> py_round2 x \<le> 100"
    using py_round2_upper[of _ 10000] by simp
  have l1: "1 \<le> py_round2 lat" using py_round2_lower[of 100 lat] b(2) by simp
  have t30: "30 \<le> py_round2 temp" using py_round2_lower[of 3000 temp] b(11) by simp
  have t90: "py_round2 temp \<le> 90" using py_round2_upper[of temp 9000] b(12) by simp
  have pe: "0 \<le> real_of_int pe" using b(3) by simp
  show ?thesis
    unfolding v
    by (rule row_in_clipI[OF lo0[OF b(1)] l1 pe lo0[OF b(4)] hi100[OF b(5)] lo0[OF b(6)]
        hi100[OF b(7)] lo0[OF b(8)] hi100[OF b(9)] lo0[OF d] t30 t90])
qed

lemma gen_row_storage:
  assumes "gen_row r0 = Some (vals, r')"
  shows "row_storage vals"
proof -
  from gen_row_raw[OF assms] obtain bw lat pe cpu mem buf drops temp where
    v: "vals = [(''bandwidth_gbps'', py_round2 bw), (''latency_us'', py_round2 lat),
             (''packet_errors'', real_of_int pe), (''cpu_util_pct'', py_round2 cpu),
             (''mem_util_pct'', py_round2 mem), (''buffer_occupancy_pct'', py_round2 buf),
             (''egress_drops_per_s'', py_round2 drops), (''temperature_c'', py_round2 temp)]"
    and dr: "(\<exists>k :: int. 0 \<le> k \<and> drops = of_int k) \<or> 100 \<le> drops \<and> drops \<le> 1000"
    by (elim exE conjE)
  have w: "whole (real_of_int pe)" by (auto simp: whole_def)
  have dd: "whole (py_round2 drops) \<or> 100 \<le> py_round2 drops \<and> py_round2 drops \<le> 1000"
  proof (cases "\<exists>k :: int. 0 \<le> k \<and> drops = of_int k")
    case True
    then show ?thesis by (auto simp: py_round2_whole whole_def)
  next
    case False
    then have "100 \<le> drops" "drops \<le> 1000" using dr by auto
    then show ?thesis
      using py_round2_lower[of 10000 drops] py_round2_upper[of drops 100000] by simp
  qed
  show ?thesis
    unfolding v
    by (rule row_storageI[OF w py_round2_two_decimals py_round2_two_decimals
        py_round2_two_decimals py_round2_two_decimals py_round2_two_decimals
        py_round2_two_decimals py_round2_two_decimals dd])
qed

lemma generate_snapshotE:
  assumes "generate_snapshot n_switches prev_id time_now ds = Some ((sid, ts, flds, rows), ds')"
  shows "sid = prev_id + 1" "ts = int_trunc (time_now * 1000)" "flds = metric_fields"
    "gen_rows [0..<nat n_switches] [] ds = Some (rows, ds')"
proof -
  obtain rs d where g: "gen_rows [0..<nat n_switches] [] ds = Some (rs, d)"
    using assms by (cases "gen_rows [0..<nat n_switches] [] ds")
      (auto simp: generate_snapshot_def Let_def)
  then have "Some ((prev_id + 1, int_trunc (time_now * 1000), metric_fields, rs), d) =
      Some ((sid, ts, flds, rows), ds')"
    using assms by (simp add: generate_snapshot_def Let_def)
  then show "sid = prev_id + 1" "ts = int_trunc (time_now * 1000)" "flds = metric_fields"
    "gen_rows [0..<nat n_switches] [] ds = Some (rows, ds')"
    using g by simp_all
qed

text \<open>
  Claim C4. For every entity count of at least 1, every previous version and every random
  outcome, each metric value of every row that \<open>generate_snapshot\<close> returns lies in its clip
  range (bandwidth, packet errors and egress drops at least 0, latency at least 1, the three
  percentages in \<open>[0, 100]\<close>, temperature in \<open>[30, 90]\<close>), and the version of the result is
  the previous version plus 1.
\<close>

theorem C4_values_in_clip_range:
  assumes "generate_snapshot n_switches prev_id time_now ds = Some ((sid, ts, flds, rows), ds')"
    and "1 \<le> n_switches"
  shows "sid = prev_id + 1 \<and> rows \<noteq> [] \<and> (\<forall>(sw, vals) \<in> set rows. row_in_clip vals)"
proof -
  note e = generate_snapshotE[OF assms(1)]
  have "[0..<nat n_switches] \<noteq> []" using assms(2) by simp
  then have ne: "rows \<noteq> []" using gen_rows_nonempty[OF e(4)] by simp
  have "\<forall>(sw, vals) \<in> set rows. row_in_clip vals"
    using e(4) by (rule gen_rows_all) (simp_all add: gen_row_in_clip)
  then show ?thesis using e(1) ne by simp
qed

theorem C4_values_in_clip_range_witness:
  "generate_snapshot 2 6 1700000000.1234 (quiet_row @ burst_row) = Some (gen2, []) \<and>
   fst gen2 = 6 + 1 \<and> row_in_clip quiet_vals \<and> row_in_clip burst_vals"
proof -
  have g: "generate_snapshot 2 6 1700000000.1234 (quiet_row @ burst_row) =
      Some ((7, 1700000000123, metric_fields, [(''sw-000'', quiet_vals), (''sw-001'', burst_vals)]), [])"
    using generate_gen2 by (simp only: gen2_def)
  have "7 = (6::int) + 1 \<and> [(''sw-000'', quiet_vals), (''sw-001'', burst_vals)] \<noteq> [] \<and>
    (\<forall>(sw, vals) \<in> set [(''sw-000'', quiet_vals), (''sw-001'', burst_vals)]. row_in_clip vals)"
    by (rule C4_values_in_clip_range[OF g]) simp
  then have "row_in_clip quiet_vals" "row_in_clip burst_vals" by simp_all
  moreover have "fst gen2 = 6 + 1" by (simp add: gen2_def)
  ultimately show ?thesis using generate_gen2 by blast
qed

lemma not_whole_burst: "\<not> whole (100.45 :: real)"
proof
  assume "whole (100.45 :: real)"
  then obtain n :: int where "(100.45 :: real) = of_int n" by (auto simp: whole_def)
  then have "real_of_int (n * 20) = real_of_int 2009" by simp
  then have "n * 20 = 2009" by (simp only: of_int_eq_iff)
  then show False by presburger
qed

text \<open>
  Claim C6. In every generated snapshot \<open>packet_errors\<close> and \<open>egress_drops\<close> are stored as whole
  numbers and all other metric values are rounded to 2 decimal places. As stated this fails: a
  burst of egress drops is \<open>uniform(100.0, 1000.0)\<close> rounded to 2 places, here 100.45.
\<close>

theorem C6_egress_drops_burst_not_whole:
  "generate_snapshot 2 6 1700000000.1234 (quiet_row @ burst_row) = Some (gen2, []) \<and>
   map_of (snd (snd (snd gen2))) ''sw-001'' = Some burst_vals \<and>
   map_of burst_vals ''egress_drops_per_s'' = Some 100.45 \<and>
   \<not> whole (100.45 :: real)"
  using generate_gen2 not_whole_burst by (simp add: gen2_def burst_vals_def)

text \<open>
  Claim C6, amended. In every generated snapshot \<open>packet_errors\<close> is stored as a whole number
  and every other metric value, \<open>egress_drops\<close> included, is rounded to 2 decimal places;
  \<open>egress_drops\<close> is a whole number except in a burst, where it lies in \<open>[100, 1000]\<close>.
\<close>

theorem C6_storage_form:
  assumes "generate_snapshot n_switches prev_id time_now ds = Some ((sid, ts, flds, rows), ds')"
  shows "\<forall>(sw, vals) \<in> set rows. row_storage vals"
  using generate_snapshotE(4)[OF assms]
  by (rule gen_rows_all) (simp_all add: gen_row_storage)

theorem C6_storage_form_witness:
  "generate_snapshot 2 6 1700000000.1234 (quiet_row @ burst_row) = Some (gen2, []) \<and>
   row_storage quiet_vals \<and> row_storage burst_vals \<and>
   map_of quiet_vals ''egress_drops_per_s'' = Some 0 \<and>
   map_of burst_vals ''packet_errors'' = Some 12"
proof -
  have g: "generate_snapshot 2 6 1700000000.1234 (quiet_row @ burst_row) =
      Some ((7, 1700000000123, metric_fields, [(''sw-000'', quiet_vals), (''sw-001'', burst_vals)]), [])"
    using generate_gen2 by (simp only: gen2_def)
  have "\<forall>(sw, vals) \<in> set [(''sw-000'', quiet_vals), (''sw-001'', burst_vals)]. row_storage vals"
    by (rule C6_storage_form[OF g])
  then have "row_storage quiet_vals" "row_storage burst_vals" by simp_all
  moreover have "map_of quiet_vals ''egress_drops_per_s'' = Some 0"
    "map_of burst_vals ''packet_errors'' = Some 12"
    by (simp_all add: quiet_vals_def burst_vals_def)
  ultimately show ?thesis using generate_gen2 by blast
qed

end
